theory Spec2Isabelle
  imports Main "HOL-Library.Monad_Syntax" "HOL-Library.Word"
begin

section \<open>Data model (list.h)\<close>

text \<open>
  The error enumeration of \<^verbatim>\<open>list.h\<close>.  Two functions of the library return an
  enumerator where an iterator is expected (\<^verbatim>\<open>list_element_at\<close>, \<^verbatim>\<open>list_next\<close>,
  \<^verbatim>\<open>list_prev\<close>); \<open>error_code\<close> gives the numeric value that C converts it to.
\<close>

datatype list_error_t =
    LIST_NO_ERR
  | LIST_ALLOC_ERR
  | LIST_BAD_ITERATOR
  | LIST_BAD_INDEX
  | LIST_EMPTY
  | LIST_BAD_CAPACITY
  | LIST_BAD_ELEM_SIZE
  | LIST_BAD_MEMORY
  | LIST_BAD_FIRST_FREE_ELEM
  | LIST_BAD_HEAD_ITERATOR
  | LIST_BAD_TAIL_ITERATOR
  | LIST_BAD_FREE_FIELDS
  | LIST_BAD_BUSY_FIELDS

fun error_code :: "list_error_t \<Rightarrow> nat" where
  "error_code LIST_NO_ERR = 0"
| "error_code LIST_ALLOC_ERR = 1"
| "error_code LIST_BAD_ITERATOR = 2"
| "error_code LIST_BAD_INDEX = 3"
| "error_code LIST_EMPTY = 4"
| "error_code LIST_BAD_CAPACITY = 5"
| "error_code LIST_BAD_ELEM_SIZE = 6"
| "error_code LIST_BAD_MEMORY = 7"
| "error_code LIST_BAD_FIRST_FREE_ELEM = 8"
| "error_code LIST_BAD_HEAD_ITERATOR = 9"
| "error_code LIST_BAD_TAIL_ITERATOR = 10"
| "error_code LIST_BAD_FREE_FIELDS = 11"
| "error_code LIST_BAD_BUSY_FIELDS = 12"

text \<open>
  \<^verbatim>\<open>struct list_t_\<close>.  The three heap arrays are lists whose length is the number of
  slots that were allocated for them; one entry of \<open>data\<close> stands for the block of
  \<open>elem_size\<close> bytes of one slot.  The field \<^verbatim>\<open>size\<close> is called \<open>size_l\<close> here, and
  \<^verbatim>\<open>print_elem_func\<close> (used by the printing and dumping code only) is left out.
  A list handle \<^verbatim>\<open>list_t\<close> is a pointer to the structure: \<open>'a list_t option\<close>, with
  \<open>None\<close> for the null handle.  A structure whose array pointers are null is not
  representable, so the \<^verbatim>\<open>LIST_BAD_MEMORY\<close> test of the checker never fires on a record.
\<close>

record 'a list_t =
  data :: "'a list"
  nexts :: "nat list"
  prevs :: "nat list"
  elem_size :: nat
  size_l :: nat
  capacity :: nat
  first_free :: nat
  head :: nat
  tail :: nat
  normalized :: bool

text \<open>
  \<^verbatim>\<open>size_t\<close> is a 64-bit unsigned integer: arithmetic on caller-supplied numbers goes
  through \<open>wrap\<close>, the value of the 64-bit word.  Slot indices and counters that stay
  below the capacity are plain natural numbers.
\<close>

definition wrap :: "nat \<Rightarrow> nat" where
  "wrap n = unat (word_of_nat n :: 64 word)"

definition CAPACITY_COEFF :: nat where
  "CAPACITY_COEFF = 2"

subsection \<open>Array accesses\<close>

text \<open>
  Every function below runs in the \<open>option\<close> monad: \<open>None\<close> is an execution that reads
  or writes an array outside the slots allocated for it (undefined behaviour in C), or
  a loop that never ends.  Error codes of the library are ordinary results.
\<close>

definition rd :: "'b list \<Rightarrow> nat \<Rightarrow> 'b option" where
  "rd a i = (if i < length a then Some (a ! i) else None)"

definition wr :: "'b list \<Rightarrow> nat \<Rightarrow> 'b \<Rightarrow> 'b list option" where
  "wr a i v = (if i < length a then Some (a[i := v]) else None)"

text \<open>\<^verbatim>\<open>memcpy(dst, src, n * sizeof slot)\<close>: the first \<open>n\<close> slots of \<open>src\<close> go to \<open>dst\<close>.\<close>

definition memcpy_slots :: "'b list \<Rightarrow> 'b list \<Rightarrow> nat \<Rightarrow> 'b list option" where
  "memcpy_slots dst src n =
     (if n \<le> length dst \<and> n \<le> length src then Some (take n src @ drop n dst) else None)"

text \<open>
  The loop \<^verbatim>\<open>for (i = lo; i < hi; ++i) { nexts[i] = (i + 1) % m; prevs[i] = i; }\<close>
  that marks slots free, as it occurs in \<^verbatim>\<open>list_create_func_\<close>, \<^verbatim>\<open>list_change_capacity\<close>
  and \<^verbatim>\<open>list_normalize\<close>.
\<close>

function fill_free :: "nat list \<times> nat list \<Rightarrow> nat \<Rightarrow> nat \<Rightarrow> nat \<Rightarrow> (nat list \<times> nat list) option" where
  "fill_free np i hi m =
     (if i < hi then
        (case wr (fst np) i ((i + 1) mod m) of None \<Rightarrow> None
         | Some n' \<Rightarrow> (case wr (snd np) i i of None \<Rightarrow> None
             | Some p' \<Rightarrow> fill_free (n', p') (i + 1) hi m))
      else Some np)"
  by pat_completeness auto
termination
  by (relation "measure (\<lambda>(np, i, hi, m). hi - i)") auto

declare fill_free.simps [simp del]

subsection \<open>Creation, iterators, element access\<close>

text \<open>
  \<^verbatim>\<open>list_create_func_\<close> (without the trailing underscore, which a name cannot have
  here).  \<open>alloc_ok\<close> says whether all four allocations succeed.  The inner \<open>option\<close> is
  the returned handle (\<open>None\<close> is \<^verbatim>\<open>NULL\<close>).  \<^verbatim>\<open>calloc\<close> zero-fills.
\<close>

definition list_create_func :: "nat \<Rightarrow> nat \<Rightarrow> bool \<Rightarrow> ('a::zero) list_t option option" where
  "list_create_func start_capacity0 elem_sz alloc_ok =
     (if elem_sz = 0 then Some None
      else if \<not> alloc_ok then Some None
      else
        let start_capacity = wrap (start_capacity0 + 1) in
        do {
          n0 \<leftarrow> wr (replicate start_capacity 0) 0 0;
          p0 \<leftarrow> wr (replicate start_capacity 0) 0 0;
          (n1, p1) \<leftarrow> fill_free (n0, p0) 1 start_capacity start_capacity;
          Some (Some \<lparr> data = replicate start_capacity 0, nexts = n1, prevs = p1,
                       elem_size = elem_sz, size_l = 1, capacity = start_capacity,
                       first_free = 1, head = 0, tail = 0, normalized = True \<rparr>)
        })"

text \<open>\<^verbatim>\<open>list_destroy\<close> releases the storage and returns the null handle.\<close>

definition list_destroy :: "'a list_t option \<Rightarrow> 'a list_t option" where
  "list_destroy lst = None"

text \<open>\<^verbatim>\<open>list_check_iterator\<close>: \<^verbatim>\<open>!it || (it < capacity && prevs[it] != it)\<close>.\<close>

definition list_check_iterator :: "'a list_t \<Rightarrow> nat \<Rightarrow> bool option" where
  "list_check_iterator lst it =
     (if it = 0 then Some True
      else if it < capacity lst then do { p \<leftarrow> rd (prevs lst) it; Some (p \<noteq> it) }
      else Some False)"

text \<open>
  A pointer into the payload array: \<open>Slot i\<close> is the address
  \<^verbatim>\<open>(char*) data + i * elem_size\<close>, \<open>NULL\<close> the null pointer.
\<close>

datatype elem_ptr = NULL | Slot nat

definition list_get :: "'a list_t \<Rightarrow> nat \<Rightarrow> elem_ptr option" where
  "list_get lst it =
     do {
       ok \<leftarrow> list_check_iterator lst it;
       if \<not> ok then Some NULL else Some (Slot it)
     }"

definition list_head :: "'a list_t \<Rightarrow> nat" where
  "list_head lst = head lst"

definition list_tail :: "'a list_t \<Rightarrow> nat" where
  "list_tail lst = tail lst"

definition list_next :: "'a list_t \<Rightarrow> nat \<Rightarrow> nat option" where
  "list_next lst it =
     do {
       ok \<leftarrow> list_check_iterator lst it;
       if \<not> ok then Some (error_code LIST_BAD_ITERATOR)
       else if it \<noteq> 0 then rd (nexts lst) it else Some 0
     }"

definition list_prev :: "'a list_t \<Rightarrow> nat \<Rightarrow> nat option" where
  "list_prev lst it =
     do {
       ok \<leftarrow> list_check_iterator lst it;
       if \<not> ok then Some (error_code LIST_BAD_ITERATOR)
       else if it \<noteq> 0 then rd (prevs lst) it else Some 0
     }"

definition list_size :: "'a list_t \<Rightarrow> nat" where
  "list_size lst = size_l lst - 1"

definition list_capacity :: "'a list_t \<Rightarrow> nat" where
  "list_capacity lst = capacity lst - 1"

definition list_is_normalized :: "'a list_t \<Rightarrow> bool" where
  "list_is_normalized lst = normalized lst"

subsection \<open>Normalisation\<close>

text \<open>
  \<^verbatim>\<open>list_swap_vals\<close> exchanges two payload slots with three \<^verbatim>\<open>memcpy\<close> calls that use
  slot 0 (the sentinel's payload) as the temporary.
\<close>

definition list_swap_vals :: "'a list_t \<Rightarrow> nat \<Rightarrow> nat \<Rightarrow> 'a list_t option" where
  "list_swap_vals lst it1 it2 =
     do {
       v1 \<leftarrow> rd (data lst) it1;
       d1 \<leftarrow> wr (data lst) 0 v1;
       v2 \<leftarrow> rd d1 it2;
       d2 \<leftarrow> wr d1 it1 v2;
       v0 \<leftarrow> rd d2 0;
       d3 \<leftarrow> wr d2 it2 v0;
       Some (lst\<lparr>data := d3\<rparr>)
     }"

text \<open>
  One iteration of the main loop of \<^verbatim>\<open>list_normalize\<close>, for loop index \<open>i\<close> and
  cursor \<open>it\<close>; it returns the list and the cursor for the next iteration.
\<close>

definition normalize_body :: "'a list_t \<Rightarrow> nat \<Rightarrow> nat \<Rightarrow> ('a list_t \<times> nat) option" where
  "normalize_body lst i it =
     (if i = it then
        do {
          it' \<leftarrow> rd (nexts lst) it;
          n1 \<leftarrow> wr (nexts lst) i ((i + 1) mod size_l lst);
          p1 \<leftarrow> wr (prevs lst) i (i - 1);
          Some (lst\<lparr>nexts := n1, prevs := p1\<rparr>, it')
        }
      else
        do {
          tmp_it \<leftarrow> rd (nexts lst) it;
          ni \<leftarrow> rd (nexts lst) i;
          n1 \<leftarrow> wr (nexts lst) it ni;
          lst1 \<leftarrow> list_swap_vals (lst\<lparr>nexts := n1\<rparr>) i it;
          pi \<leftarrow> rd (prevs lst1) i;
          t \<leftarrow> rd (nexts lst1) pi;
          n2 \<leftarrow> wr (nexts lst1) pi (if t > i then it else t);
          p1 \<leftarrow> wr (prevs lst1) i (i - 1);
          n3 \<leftarrow> wr n2 i ((i + 1) mod size_l lst1);
          Some (lst1\<lparr>nexts := n3, prevs := p1\<rparr>, tmp_it)
        })"

lemma normalize_body_size:
  "normalize_body lst i it = Some (lst', it') \<Longrightarrow> size_l lst' = size_l lst"
  by (auto simp: normalize_body_def list_swap_vals_def split: if_splits Option.bind_splits)

text \<open>The loop \<^verbatim>\<open>for (size_t i = 1; i < lst->size; ++i)\<close> from index \<open>i\<close> on.\<close>

function normalize_loop :: "'a list_t \<Rightarrow> nat \<Rightarrow> nat \<Rightarrow> 'a list_t option" where
  "normalize_loop lst i it =
     (if i < size_l lst then
        (case normalize_body lst i it of None \<Rightarrow> None
         | Some (lst', it') \<Rightarrow> normalize_loop lst' (i + 1) it')
      else Some lst)"
  by pat_completeness auto
termination
  by (relation "measure (\<lambda>(lst, i, it). size_l lst - i)")
     (auto dest: normalize_body_size)

declare normalize_loop.simps [simp del]

definition list_normalize :: "'a list_t \<Rightarrow> 'a list_t option" where
  "list_normalize lst =
     (if normalized lst then Some lst
      else if size_l lst = 1 then Some (lst\<lparr>normalized := True\<rparr>)
      else
        do {
          lst1 \<leftarrow> normalize_loop (lst\<lparr>normalized := True\<rparr>) 1 (head lst);
          let lst2 = lst1\<lparr>head := 1, tail := size_l lst1 - 1\<rparr>;
          n1 \<leftarrow> wr (nexts lst2) 0 (head lst2);
          p1 \<leftarrow> wr (prevs lst2) 0 (tail lst2);
          let lst3 = lst2\<lparr>nexts := n1, prevs := p1,
                 first_free := (if size_l lst2 < capacity lst2 \<or> size_l lst2 = 1
                                then size_l lst2 else 0)\<rparr>;
          (n2, p2) \<leftarrow> fill_free (nexts lst3, prevs lst3) (size_l lst3) (capacity lst3) (capacity lst3);
          Some (lst3\<lparr>nexts := n2, prevs := p2\<rparr>)
        })"

subsection \<open>Capacity\<close>

text \<open>
  The walk to the end of the free chain in \<^verbatim>\<open>list_change_capacity\<close>:
  \<^verbatim>\<open>for (next = nexts[free]; next; next = nexts[free]) free = next;\<close>
\<close>

partial_function (option) last_free :: "nat list \<Rightarrow> nat \<Rightarrow> nat option" where
  "last_free nx free =
     (case rd nx free of None \<Rightarrow> None
      | Some next \<Rightarrow> if next = 0 then Some free else last_free nx next)"

declare last_free.simps [code]

text \<open>
  \<^verbatim>\<open>list_change_capacity\<close>.  \<open>alloc_ok\<close> says whether the three \<^verbatim>\<open>calloc\<close> calls succeed.
  The three \<^verbatim>\<open>memcpy\<close> calls copy \<open>new_capacity\<close> slots out of the old arrays, which hold
  \<open>capacity\<close> slots.
\<close>

definition list_change_capacity ::
    "('a::zero) list_t \<Rightarrow> nat \<Rightarrow> bool \<Rightarrow> (list_error_t \<times> 'a list_t) option" where
  "list_change_capacity lst new_capacity0 alloc_ok =
     (let new_capacity = wrap (new_capacity0 + 1) in
      if new_capacity < size_l lst then Some (LIST_BAD_CAPACITY, lst)
      else
        do {
          lst1 \<leftarrow> (if new_capacity < capacity lst then list_normalize lst else Some lst);
          if \<not> alloc_ok then Some (LIST_ALLOC_ERR, lst1)
          else
            do {
              new_data \<leftarrow> memcpy_slots (replicate new_capacity 0) (data lst1) new_capacity;
              new_nexts \<leftarrow> memcpy_slots (replicate new_capacity 0) (nexts lst1) new_capacity;
              new_prevs \<leftarrow> memcpy_slots (replicate new_capacity 0) (prevs lst1) new_capacity;
              (lst2, np) \<leftarrow>
                (if new_capacity > capacity lst1 then
                   do {
                     let lst2 = lst1\<lparr>first_free :=
                           (if first_free lst1 \<noteq> 0 then first_free lst1 else size_l lst1)\<rparr>;
                     free \<leftarrow> last_free (nexts lst2) (first_free lst2);
                     nn \<leftarrow> wr new_nexts free (size_l lst2);
                     np \<leftarrow> fill_free (nn, new_prevs) (size_l lst2) new_capacity new_capacity;
                     Some (lst2, np)
                   }
                 else Some (lst1, (new_nexts, new_prevs)));
              Some (LIST_NO_ERR,
                    lst2\<lparr>data := new_data, nexts := fst np, prevs := snd np,
                         capacity := new_capacity\<rparr>)
            }
        })"

text \<open>
  \<^verbatim>\<open>list_remove_first_free\<close>; the third component is the out-parameter \<^verbatim>\<open>*it\<close>, which
  the source leaves unassigned on an error (0 here, never read by the caller).
\<close>

definition list_remove_first_free ::
    "('a::zero) list_t \<Rightarrow> bool \<Rightarrow> (list_error_t \<times> 'a list_t \<times> nat) option" where
  "list_remove_first_free lst alloc_ok =
     do {
       (err, lst1) \<leftarrow>
         (if size_l lst = capacity lst
          then list_change_capacity lst (wrap (capacity lst * CAPACITY_COEFF)) alloc_ok
          else Some (LIST_NO_ERR, lst));
       if err \<noteq> LIST_NO_ERR then Some (err, lst1, 0)
       else
         do {
           nf \<leftarrow> rd (nexts lst1) (first_free lst1);
           Some (LIST_NO_ERR, lst1\<lparr>size_l := size_l lst1 + 1, first_free := nf\<rparr>,
                 first_free lst1)
         }
     }"

subsection \<open>Insertion\<close>

text \<open>
  The \<^verbatim>\<open>assert\<close> lines of the public functions (non-null handle, \<^verbatim>\<open>list_verify\<close> succeeds)
  are preconditions, compiled out under \<^verbatim>\<open>NDEBUG\<close>; they appear as hypotheses of the
  theorems, not in the functions.
\<close>

definition list_insert_after ::
    "('a::zero) list_t \<Rightarrow> nat \<Rightarrow> 'a \<Rightarrow> bool \<Rightarrow> (list_error_t \<times> 'a list_t) option" where
  "list_insert_after lst it v alloc_ok =
     do {
       ok \<leftarrow> list_check_iterator lst it;
       if \<not> ok then Some (LIST_BAD_ITERATOR, lst)
       else
         do {
           (err, lst1, place_to_insert) \<leftarrow> list_remove_first_free lst alloc_ok;
           if err \<noteq> LIST_NO_ERR then Some (err, lst1)
           else
             do {
               d \<leftarrow> wr (data lst1) place_to_insert v;
               nit \<leftarrow> rd (nexts lst1) it;
               n1 \<leftarrow> wr (nexts lst1) place_to_insert nit;
               n2 \<leftarrow> wr n1 it place_to_insert;
               p1 \<leftarrow> wr (prevs lst1) place_to_insert it;
               np \<leftarrow> rd n2 place_to_insert;
               p2 \<leftarrow> wr p1 np place_to_insert;
               let lst2 = lst1\<lparr>data := d, nexts := n2, prevs := p2\<rparr>;
               let lst3 = (if np = 0 then lst2\<lparr>tail := place_to_insert\<rparr>
                           else lst2\<lparr>normalized := False\<rparr>);
               pp \<leftarrow> rd p2 place_to_insert;
               Some (LIST_NO_ERR,
                     if pp = 0 then lst3\<lparr>head := place_to_insert\<rparr> else lst3)
             }
         }
     }"

definition list_insert_before ::
    "('a::zero) list_t \<Rightarrow> nat \<Rightarrow> 'a \<Rightarrow> bool \<Rightarrow> (list_error_t \<times> 'a list_t) option" where
  "list_insert_before lst it v alloc_ok =
     do {
       p \<leftarrow> rd (prevs lst) it;
       list_insert_after lst p v alloc_ok
     }"

definition list_insert_to_head ::
    "('a::zero) list_t \<Rightarrow> 'a \<Rightarrow> bool \<Rightarrow> (list_error_t \<times> 'a list_t) option" where
  "list_insert_to_head lst v alloc_ok = list_insert_before lst (head lst) v alloc_ok"

definition list_insert_to_tail ::
    "('a::zero) list_t \<Rightarrow> 'a \<Rightarrow> bool \<Rightarrow> (list_error_t \<times> 'a list_t) option" where
  "list_insert_to_tail lst v alloc_ok = list_insert_after lst (tail lst) v alloc_ok"

subsection \<open>The invariant checker\<close>

text \<open>
  The free-chain loop of \<^verbatim>\<open>list_verify_func_\<close>; \<open>Some LIST_NO_ERR\<close> means that the
  loop ran to its end.  The test \<^verbatim>\<open>free_amount++ > capacity - size\<close> bounds the number
  of iterations.
\<close>

function verify_free :: "'a list_t \<Rightarrow> nat \<Rightarrow> nat \<Rightarrow> list_error_t option" where
  "verify_free lst free_it free_amount =
     (if free_it = 0 then Some LIST_NO_ERR
      else if free_amount > capacity lst - size_l lst then Some LIST_BAD_FREE_FIELDS
      else
        (case rd (prevs lst) free_it of None \<Rightarrow> None
         | Some p \<Rightarrow>
             if p \<noteq> free_it then Some LIST_BAD_FREE_FIELDS
             else
               (case rd (nexts lst) free_it of None \<Rightarrow> None
                | Some n \<Rightarrow>
                    if n = free_it then Some LIST_BAD_FREE_FIELDS
                    else verify_free lst n (free_amount + 1))))"
  by pat_completeness auto
termination
  by (relation "measure (\<lambda>(lst, free_it, free_amount).
                   capacity lst - size_l lst + 1 - free_amount)") auto

declare verify_free.simps [simp del]

text \<open>The active-chain loop, bounded by \<^verbatim>\<open>elems_amount++ >= size\<close>.\<close>

function verify_busy :: "'a list_t \<Rightarrow> nat \<Rightarrow> nat \<Rightarrow> list_error_t option" where
  "verify_busy lst it elems_amount =
     (if it = 0 then Some LIST_NO_ERR
      else if elems_amount \<ge> size_l lst then Some LIST_BAD_BUSY_FIELDS
      else
        (case rd (prevs lst) it of None \<Rightarrow> None
         | Some p \<Rightarrow>
             (case rd (nexts lst) p of None \<Rightarrow> None
              | Some np \<Rightarrow>
                  if it \<noteq> np then Some LIST_BAD_BUSY_FIELDS
                  else
                    (case rd (nexts lst) it of None \<Rightarrow> None
                     | Some n \<Rightarrow>
                         (case rd (prevs lst) n of None \<Rightarrow> None
                          | Some pn \<Rightarrow>
                              if it \<noteq> pn then Some LIST_BAD_BUSY_FIELDS
                              else verify_busy lst n (elems_amount + 1))))))"
  by pat_completeness auto
termination
  by (relation "measure (\<lambda>(lst, it, elems_amount). size_l lst - elems_amount)") auto

declare verify_busy.simps [simp del]

text \<open>
  \<^verbatim>\<open>list_verify_func_\<close> on a handle.  The diagnostic dump of a failed check is output
  only and is not modelled.
\<close>

definition list_verify_func :: "'a list_t option \<Rightarrow> list_error_t option" where
  "list_verify_func h =
     (case h of
        None \<Rightarrow> Some LIST_NO_ERR
      | Some lst \<Rightarrow>
          if size_l lst = 0 \<or> capacity lst < size_l lst then Some LIST_BAD_CAPACITY
          else if elem_size lst = 0 then Some LIST_BAD_ELEM_SIZE
          else
            do {
              bad_ff \<leftarrow>
                (if first_free lst \<ge> capacity lst then Some True
                 else do { p \<leftarrow> rd (prevs lst) (first_free lst);
                           Some (p \<noteq> first_free lst) });
              if bad_ff \<and> capacity lst \<noteq> 1 \<and> first_free lst \<noteq> 0
              then Some LIST_BAD_FIRST_FREE_ELEM
              else if head lst \<ge> capacity lst \<or> (size_l lst = 1 \<and> head lst \<noteq> 0)
              then Some LIST_BAD_HEAD_ITERATOR
              else if tail lst \<ge> capacity lst \<or> (size_l lst = 1 \<and> tail lst \<noteq> 0)
              then Some LIST_BAD_TAIL_ITERATOR
              else if capacity lst = 1 then Some LIST_NO_ERR
              else
                do {
                  e1 \<leftarrow> verify_free lst (first_free lst) 0;
                  if e1 \<noteq> LIST_NO_ERR then Some e1
                  else
                    do {
                      e2 \<leftarrow> verify_busy lst (head lst) 0;
                      if e2 \<noteq> LIST_NO_ERR then Some e2
                      else
                        do {
                          p0 \<leftarrow> rd (prevs lst) 0;
                          if p0 \<noteq> tail lst then Some LIST_BAD_BUSY_FIELDS
                          else Some LIST_NO_ERR
                        }
                    }
                }
            })"

text \<open>The macro \<^verbatim>\<open>list_verify(lst)\<close> on a non-null handle.\<close>

definition list_verify :: "'a list_t \<Rightarrow> list_error_t option" where
  "list_verify lst = list_verify_func (Some lst)"

subsection \<open>Erasure, search, clearing\<close>

text \<open>\<^verbatim>\<open>list_erase\<close>; the third component is the rewritten \<^verbatim>\<open>*it\<close>.\<close>

definition list_erase :: "'a list_t \<Rightarrow> nat \<Rightarrow> (list_error_t \<times> 'a list_t \<times> nat) option" where
  "list_erase lst it =
     do {
       ok \<leftarrow> list_check_iterator lst it;
       if \<not> ok then Some (LIST_BAD_ITERATOR, lst, it)
       else if it = 0 then Some (LIST_NO_ERR, lst, it)
       else
         do {
           next \<leftarrow> rd (nexts lst) it;
           prev \<leftarrow> rd (prevs lst) it;
           n1 \<leftarrow> wr (nexts lst) prev next;
           p1 \<leftarrow> wr (prevs lst) next prev;
           n2 \<leftarrow> wr n1 it (first_free lst);
           p2 \<leftarrow> wr p1 it it;
           let lst1 = lst\<lparr>nexts := n2, prevs := p2, first_free := it\<rparr>;
           let lst2 = (if it = head lst1 then lst1\<lparr>head := next\<rparr> else lst1);
           let lst3 = (if it = tail lst2 then lst2\<lparr>tail := prev\<rparr>
                       else lst2\<lparr>normalized := False\<rparr>);
           Some (LIST_NO_ERR, lst3\<lparr>size_l := size_l lst3 - 1\<rparr>,
                 if next \<noteq> 0 then next else prev)
         }
     }"

text \<open>The scan of \<^verbatim>\<open>list_find\<close>; \<^verbatim>\<open>memcmp\<close> over one slot is equality of the entries.\<close>

partial_function (option) find_from :: "'a list_t \<Rightarrow> 'a \<Rightarrow> nat \<Rightarrow> nat option" where
  "find_from lst v it =
     (if it = 0 then Some 0
      else
        (case rd (data lst) it of None \<Rightarrow> None
         | Some x \<Rightarrow>
             if x = v then Some it
             else (case rd (nexts lst) it of None \<Rightarrow> None
                   | Some n \<Rightarrow> find_from lst v n)))"

declare find_from.simps [code]

definition list_find :: "'a list_t \<Rightarrow> 'a \<Rightarrow> nat option" where
  "list_find lst v = find_from lst v (head lst)"

text \<open>\<^verbatim>\<open>for (size_t i = 1; i < index; ++i) it = list_next(lst, it);\<close> with \<open>k\<close> rounds left.\<close>

fun next_times :: "'a list_t \<Rightarrow> nat \<Rightarrow> nat \<Rightarrow> nat option" where
  "next_times lst 0 it = Some it"
| "next_times lst (Suc k) it =
     (case list_next lst it of None \<Rightarrow> None | Some it' \<Rightarrow> next_times lst k it')"

definition list_element_at :: "'a list_t \<Rightarrow> nat \<Rightarrow> nat option" where
  "list_element_at lst index0 =
     (let index = wrap (index0 + 1) in
      if index \<ge> size_l lst then Some (error_code LIST_BAD_INDEX)
      else if normalized lst then Some index
      else next_times lst (index - 1) (list_head lst))"

definition list_erase_by_value ::
    "'a list_t \<Rightarrow> 'a \<Rightarrow> (list_error_t \<times> 'a list_t) option" where
  "list_erase_by_value lst v =
     do {
       it \<leftarrow> list_find lst v;
       (err, lst', it') \<leftarrow> list_erase lst it;
       Some (err, lst')
     }"

definition list_erase_by_index ::
    "'a list_t \<Rightarrow> nat \<Rightarrow> (list_error_t \<times> 'a list_t) option" where
  "list_erase_by_index lst index =
     do {
       it \<leftarrow> list_element_at lst index;
       (err, lst', it') \<leftarrow> list_erase lst it;
       Some (err, lst')
     }"

definition list_clear :: "('a::zero) list_t \<Rightarrow> bool \<Rightarrow> (list_error_t \<times> 'a list_t) option" where
  "list_clear lst alloc_ok =
     do {
       (err, lst1) \<leftarrow> list_change_capacity (lst\<lparr>normalized := True, size_l := 1\<rparr>) 0 alloc_ok;
       if err \<noteq> LIST_NO_ERR then Some (err, lst1)
       else
         do {
           n \<leftarrow> wr (nexts lst1) 0 0;
           p \<leftarrow> wr (prevs lst1) 0 0;
           Some (LIST_NO_ERR, lst1\<lparr>nexts := n, prevs := p\<rparr>)
         }
     }"

section \<open>Logical view and structural invariant\<close>

text \<open>
  \<open>walk nx k i\<close> lists the slots met from \<open>i\<close> by following the links \<open>nx\<close> until the
  sentinel 0 (or an index outside the array) is met, at most \<open>k\<close> of them.  The active
  chain is the walk from \<open>head\<close>, the free chain the walk from \<open>first_free\<close>, and the
  logical contents are the payloads along the active chain, as \<^verbatim>\<open>list_print\<close> and
  \<^verbatim>\<open>list_find\<close> traverse them.
\<close>

fun walk :: "nat list \<Rightarrow> nat \<Rightarrow> nat \<Rightarrow> nat list" where
  "walk nx 0 i = []"
| "walk nx (Suc k) i = (if i = 0 \<or> length nx \<le> i then [] else i # walk nx k (nx ! i))"

definition actives :: "'a list_t \<Rightarrow> nat list" where
  "actives lst = walk (nexts lst) (capacity lst) (head lst)"

definition frees :: "'a list_t \<Rightarrow> nat list" where
  "frees lst = walk (nexts lst) (capacity lst) (first_free lst)"

definition contents :: "'a list_t \<Rightarrow> 'a list" where
  "contents lst = map (\<lambda>i. data lst ! i) (actives lst)"

text \<open>\<open>linked_back pv p xs\<close>: along the chain \<open>xs\<close> entered from \<open>p\<close>, every \<open>prev\<close> link
  names the predecessor.\<close>

fun linked_back :: "nat list \<Rightarrow> nat \<Rightarrow> nat list \<Rightarrow> bool" where
  "linked_back pv p [] = True"
| "linked_back pv p (x # xs) = (pv ! x = p \<and> linked_back pv x xs)"

text \<open>A byte count that a \<^verbatim>\<open>size_t\<close> can hold.\<close>

definition fits_size_t :: "nat \<Rightarrow> bool" where
  "fits_size_t n \<longleftrightarrow> wrap n = n"

text \<open>
  The structural invariant of a list (section 3 of the specification): the three arrays
  hold \<open>capacity\<close> slots (and the link arrays of \<open>8 * capacity\<close> bytes were allocated),
  \<open>capacity \<ge> size \<ge> 1\<close>, the sentinel links are \<open>head\<close> and \<open>tail\<close>, all links are
  slot indices, the active chain has \<open>size - 1\<close> slots and is doubly linked, the free
  chain has \<open>capacity - size\<close> slots, each marked by \<open>prev[slot] = slot\<close>, and no slot
  occurs twice.  As in \<^verbatim>\<open>list_verify_func_\<close>, \<open>first_free\<close> is not constrained when the
  sentinel is the only slot.
\<close>

definition list_inv :: "'a list_t \<Rightarrow> bool" where
  "list_inv lst \<longleftrightarrow>
     length (data lst) = capacity lst \<and>
     length (nexts lst) = capacity lst \<and>
     length (prevs lst) = capacity lst \<and>
     fits_size_t (8 * capacity lst) \<and>
     1 \<le> elem_size lst \<and> 1 \<le> size_l lst \<and> size_l lst \<le> capacity lst \<and>
     nexts lst ! 0 = head lst \<and> prevs lst ! 0 = tail lst \<and>
     list_all (\<lambda>x. x < capacity lst) (nexts lst) \<and>
     list_all (\<lambda>x. x < capacity lst) (prevs lst) \<and>
     (first_free lst < capacity lst \<or> capacity lst = 1) \<and>
     length (actives lst) = size_l lst - 1 \<and>
     length (frees lst) = capacity lst - size_l lst \<and>
     distinct (actives lst @ frees lst) \<and>
     linked_back (prevs lst) 0 (actives lst) \<and>
     tail lst = last (0 # actives lst) \<and>
     list_all (\<lambda>f. prevs lst ! f = f) (frees lst)"

text \<open>
  What the loop of \<^verbatim>\<open>list_normalize\<close> needs of a list so that every slot it touches exists:
  arrays of \<open>capacity\<close> slots whose links are slot indices.
\<close>

definition in_bounds :: "'a list_t \<Rightarrow> bool" where
  "in_bounds lst \<longleftrightarrow>
     length (data lst) = capacity lst \<and> length (nexts lst) = capacity lst \<and>
     length (prevs lst) = capacity lst \<and> size_l lst \<le> capacity lst \<and>
     list_all (\<lambda>x. x < capacity lst) (nexts lst) \<and>
     list_all (\<lambda>x. x < capacity lst) (prevs lst)"

text \<open>An iterator that names an element: in range, not the sentinel, not a free slot.\<close>

definition on_element :: "'a list_t \<Rightarrow> nat \<Rightarrow> bool" where
  "on_element lst it \<longleftrightarrow> it \<noteq> 0 \<and> it < capacity lst \<and> prevs lst ! it \<noteq> it"

text \<open>
  \<open>chain nx i xs j\<close>: following the links \<open>nx\<close> from \<open>i\<close> visits exactly the slots
  \<open>xs\<close>, all of them proper slots of the array, and then arrives at \<open>j\<close>.
\<close>

fun chain :: "nat list \<Rightarrow> nat \<Rightarrow> nat list \<Rightarrow> nat \<Rightarrow> bool" where
  "chain nx i [] j = (i = j)"
| "chain nx i (x # xs) j = (i = x \<and> x \<noteq> 0 \<and> x < length nx \<and> chain nx (nx ! x) xs j)"

text \<open>
  The lists that a program can hold: those that \<^verbatim>\<open>list_create\<close> returned (for a capacity
  whose arrays fit in the address space), and those that an insertion or erasure that
  ran to completion left behind, whatever error code it returned.
\<close>

inductive reachable :: "('a::zero) list_t \<Rightarrow> bool" where
  created: "list_create_func n es True = Some (Some lst) \<Longrightarrow> 8 * (n + 1) < 2 ^ 64
              \<Longrightarrow> reachable lst"
| after: "reachable lst \<Longrightarrow> list_insert_after lst it v a = Some (e, lst') \<Longrightarrow> reachable lst'"
| before: "reachable lst \<Longrightarrow> list_insert_before lst it v a = Some (e, lst') \<Longrightarrow> reachable lst'"
| to_head: "reachable lst \<Longrightarrow> list_insert_to_head lst v a = Some (e, lst') \<Longrightarrow> reachable lst'"
| to_tail: "reachable lst \<Longrightarrow> list_insert_to_tail lst v a = Some (e, lst') \<Longrightarrow> reachable lst'"
| erased: "reachable lst \<Longrightarrow> list_erase lst it = Some (e, lst', it') \<Longrightarrow> reachable lst'"
| erased_value: "reachable lst \<Longrightarrow> list_erase_by_value lst v = Some (e, lst') \<Longrightarrow> reachable lst'"
| erased_index: "reachable lst \<Longrightarrow> list_erase_by_index lst k = Some (e, lst') \<Longrightarrow> reachable lst'"

section \<open>Example lists\<close>

text \<open>
  The states of the scenario \<^verbatim>\<open>list_create(2, ..., int)\<close>, \<^verbatim>\<open>list_insert_to_tail(11)\<close>,
  then \<^verbatim>\<open>list_insert_to_head(22)\<close> or \<^verbatim>\<open>list_insert_to_tail(22)\<close>.
\<close>

definition ex_empty :: "int list_t" where
  "ex_empty = \<lparr> data = [0, 0, 0], nexts = [0, 2, 0], prevs = [0, 1, 2], elem_size = 4,
      size_l = 1, capacity = 3, first_free = 1, head = 0, tail = 0, normalized = True \<rparr>"

definition ex_one :: "int list_t" where
  "ex_one = \<lparr> data = [0, 11, 0], nexts = [1, 0, 0], prevs = [1, 0, 2], elem_size = 4,
      size_l = 2, capacity = 3, first_free = 2, head = 1, tail = 1, normalized = True \<rparr>"

definition ex_head :: "int list_t" where
  "ex_head = \<lparr> data = [0, 11, 22], nexts = [2, 0, 1], prevs = [1, 2, 0], elem_size = 4,
      size_l = 3, capacity = 3, first_free = 0, head = 2, tail = 1, normalized = False \<rparr>"

definition ex_tail :: "int list_t" where
  "ex_tail = \<lparr> data = [0, 11, 22], nexts = [1, 2, 0], prevs = [2, 0, 1], elem_size = 4,
      size_l = 3, capacity = 3, first_free = 0, head = 1, tail = 2, normalized = True \<rparr>"

text \<open>
  The same with one spare slot: \<^verbatim>\<open>list_create(3, ..., int)\<close>, \<^verbatim>\<open>list_insert_to_tail(11)\<close>,
  then \<^verbatim>\<open>list_insert_to_head(22)\<close>, or \<^verbatim>\<open>list_insert_to_tail(22)\<close> followed by erasing
  the first element.
\<close>

definition ex4_empty :: "int list_t" where
  "ex4_empty = \<lparr> data = [0, 0, 0, 0], nexts = [0, 2, 3, 0], prevs = [0, 1, 2, 3],
      elem_size = 4, size_l = 1, capacity = 4, first_free = 1, head = 0, tail = 0,
      normalized = True \<rparr>"

definition ex4_one :: "int list_t" where
  "ex4_one = \<lparr> data = [0, 11, 0, 0], nexts = [1, 0, 3, 0], prevs = [1, 0, 2, 3],
      elem_size = 4, size_l = 2, capacity = 4, first_free = 2, head = 1, tail = 1,
      normalized = True \<rparr>"

definition ex4_head :: "int list_t" where
  "ex4_head = \<lparr> data = [0, 11, 22, 0], nexts = [2, 0, 1, 0], prevs = [1, 2, 0, 3],
      elem_size = 4, size_l = 3, capacity = 4, first_free = 3, head = 2, tail = 1,
      normalized = False \<rparr>"

definition ex4_tail :: "int list_t" where
  "ex4_tail = \<lparr> data = [0, 11, 22, 0], nexts = [1, 2, 0, 0], prevs = [2, 0, 1, 3],
      elem_size = 4, size_l = 3, capacity = 4, first_free = 3, head = 1, tail = 2,
      normalized = True \<rparr>"

definition ex4_erased :: "int list_t" where
  "ex4_erased = \<lparr> data = [0, 11, 22, 0], nexts = [2, 3, 0, 0], prevs = [2, 1, 0, 3],
      elem_size = 4, size_l = 2, capacity = 4, first_free = 1, head = 2, tail = 2,
      normalized = False \<rparr>"

text \<open>The list \<open>ex4_erased\<close> after \<^verbatim>\<open>list_normalize\<close>.\<close>

definition ex4_compacted :: "int list_t" where
  "ex4_compacted = \<lparr> data = [11, 22, 11, 0], nexts = [1, 0, 3, 0], prevs = [1, 0, 2, 3],
      elem_size = 4, size_l = 2, capacity = 4, first_free = 2, head = 1, tail = 1,
      normalized = True \<rparr>"

section \<open>Basic facts\<close>

text \<open>The example lists are the states that the library reaches, and they are valid.\<close>

lemma ex_empty_created: "list_create_func 2 4 True = Some (Some ex_empty)"
  by code_simp

lemma ex_one_reached: "list_insert_to_tail ex_empty 11 True = Some (LIST_NO_ERR, ex_one)"
  by code_simp

lemma ex_head_reached: "list_insert_to_head ex_one 22 True = Some (LIST_NO_ERR, ex_head)"
  by code_simp

lemma ex_tail_reached: "list_insert_to_tail ex_one 22 True = Some (LIST_NO_ERR, ex_tail)"
  by code_simp

lemma ex_inv: "list_inv ex_empty" "list_inv ex_one" "list_inv ex_head" "list_inv ex_tail"
  by code_simp+

lemma ex_verify:
  "list_verify ex_empty = Some LIST_NO_ERR" "list_verify ex_one = Some LIST_NO_ERR"
  "list_verify ex_head = Some LIST_NO_ERR" "list_verify ex_tail = Some LIST_NO_ERR"
  by code_simp+

lemma ex4_reached:
  "list_create_func 3 4 True = Some (Some ex4_empty)"
  "list_insert_to_tail ex4_empty 11 True = Some (LIST_NO_ERR, ex4_one)"
  "list_insert_to_head ex4_one 22 True = Some (LIST_NO_ERR, ex4_head)"
  "list_insert_to_tail ex4_one 22 True = Some (LIST_NO_ERR, ex4_tail)"
  "list_erase ex4_tail 1 = Some (LIST_NO_ERR, ex4_erased, 2)"
  by code_simp+

lemma ex4_inv:
  "list_inv ex4_empty" "list_inv ex4_one" "list_inv ex4_head" "list_inv ex4_tail"
  "list_inv ex4_erased"
  by code_simp+

lemma wrap_eq: "wrap n = n mod 2 ^ 64"
  by (simp add: wrap_def unat_of_nat)

lemma wrap_id: "n < 2 ^ 64 \<Longrightarrow> wrap n = n"
  by (simp add: wrap_eq)

lemma fits_size_t_iff: "fits_size_t n \<longleftrightarrow> n < 2 ^ 64"
proof
  assume "fits_size_t n"
  then have "n = n mod 2 ^ 64"
    by (simp add: fits_size_t_def wrap_eq)
  also have "\<dots> < 2 ^ 64"
    by simp
  finally show "n < 2 ^ 64" .
next
  assume "n < 2 ^ 64"
  then show "fits_size_t n"
    by (simp add: fits_size_t_def wrap_id)
qed

lemma rd_Some [simp]: "i < length a \<Longrightarrow> rd a i = Some (a ! i)"
  by (simp add: rd_def)

lemma rd_None [simp]: "length a \<le> i \<Longrightarrow> rd a i = None"
  by (simp add: rd_def)

lemma wr_Some [simp]: "i < length a \<Longrightarrow> wr a i v = Some (a[i := v])"
  by (simp add: wr_def)

lemma wr_None [simp]: "length a \<le> i \<Longrightarrow> wr a i v = None"
  by (simp add: wr_def)

lemma list_invD:
  assumes "list_inv lst"
  shows inv_len_data: "length (data lst) = capacity lst"
    and inv_len_nexts: "length (nexts lst) = capacity lst"
    and inv_len_prevs: "length (prevs lst) = capacity lst"
    and inv_fits: "fits_size_t (8 * capacity lst)"
    and inv_elem_size: "1 \<le> elem_size lst"
    and inv_size_pos: "1 \<le> size_l lst"
    and inv_size_le: "size_l lst \<le> capacity lst"
    and inv_nexts0: "nexts lst ! 0 = head lst"
    and inv_prevs0: "prevs lst ! 0 = tail lst"
    and inv_nexts_bound: "list_all (\<lambda>x. x < capacity lst) (nexts lst)"
    and inv_prevs_bound: "list_all (\<lambda>x. x < capacity lst) (prevs lst)"
    and inv_first_free: "first_free lst < capacity lst \<or> capacity lst = 1"
    and inv_len_actives: "length (actives lst) = size_l lst - 1"
    and inv_len_frees: "length (frees lst) = capacity lst - size_l lst"
    and inv_distinct: "distinct (actives lst @ frees lst)"
    and inv_linked_back: "linked_back (prevs lst) 0 (actives lst)"
    and inv_tail: "tail lst = last (0 # actives lst)"
    and inv_free_marks: "list_all (\<lambda>f. prevs lst ! f = f) (frees lst)"
  using assms unfolding list_inv_def by blast+

lemma check_iterator_inv:
  "list_inv lst \<Longrightarrow>
   list_check_iterator lst it = Some (it = 0 \<or> (it < capacity lst \<and> prevs lst ! it \<noteq> it))"
  by (simp add: list_check_iterator_def inv_len_prevs)

section \<open>Chains\<close>

lemma chain_append: "chain nx i (xs @ ys) j \<longleftrightarrow> (\<exists>m. chain nx i xs m \<and> chain nx m ys j)"
  by (induction xs arbitrary: i) auto

lemma chain_upd: "k \<notin> set xs \<Longrightarrow> chain (nx[k := v]) i xs j = chain nx i xs j"
  by (induction xs arbitrary: i) auto

lemma chain_nonzero: "chain nx i xs j \<Longrightarrow> x \<in> set xs \<Longrightarrow> x \<noteq> 0 \<and> x < length nx"
  by (induction xs arbitrary: i) auto

lemma walk_chain: "chain nx i xs 0 \<Longrightarrow> length xs < k \<Longrightarrow> walk nx k i = xs"
proof (induction xs arbitrary: i k)
  case Nil
  then show ?case by (cases k) auto
next
  case (Cons x xs)
  then show ?case by (cases k) auto
qed

lemma chain_walk:
  "list_all (\<lambda>x. x < length nx) nx \<Longrightarrow> i < length nx \<Longrightarrow> length (walk nx k i) < k
     \<Longrightarrow> chain nx i (walk nx k i) 0"
proof (induction k arbitrary: i)
  case 0
  then show ?case by simp
next
  case (Suc k)
  show ?case
  proof (cases "i = 0")
    case True
    then show ?thesis by simp
  next
    case False
    have "nx ! i < length nx"
      using Suc.prems(1,2) by (simp add: list_all_length)
    moreover have "length (walk nx k (nx ! i)) < k"
      using Suc.prems(2,3) False by simp
    ultimately have "chain nx (nx ! i) (walk nx k (nx ! i)) 0"
      using Suc.IH Suc.prems(1) by blast
    then show ?thesis
      using False Suc.prems(2) by simp
  qed
qed

lemma walk_set: "x \<in> set (walk nx k i) \<Longrightarrow> x \<noteq> 0 \<and> x < length nx"
  by (induction k arbitrary: i) (auto split: if_splits)

lemma linked_back_append:
  "linked_back pv p (xs @ ys) \<longleftrightarrow> linked_back pv p xs \<and> linked_back pv (last (p # xs)) ys"
  by (induction xs arbitrary: p) auto

lemma linked_back_upd: "k \<notin> set xs \<Longrightarrow> linked_back (pv[k := v]) p xs = linked_back pv p xs"
  by (induction xs arbitrary: p) auto

lemma inv_actives_chain:
  assumes "list_inv lst"
  shows "chain (nexts lst) (head lst) (actives lst) 0"
proof -
  have len: "length (nexts lst) = capacity lst" and pos: "0 < capacity lst"
    using assms by (simp_all add: list_inv_def)
  have all: "list_all (\<lambda>x. x < length (nexts lst)) (nexts lst)"
    using assms by (simp add: list_inv_def)
  have "nexts lst ! 0 < length (nexts lst)"
    using all len pos by (simp add: list_all_length)
  then have h: "head lst < length (nexts lst)"
    using assms by (simp add: list_inv_def)
  have "length (actives lst) < capacity lst"
    using inv_len_actives [OF assms] inv_size_le [OF assms] inv_size_pos [OF assms] by arith
  then show ?thesis
    unfolding actives_def using chain_walk [OF all h] by simp
qed

lemma inv_frees_chain:
  assumes "list_inv lst" and "first_free lst < capacity lst"
  shows "chain (nexts lst) (first_free lst) (frees lst) 0"
proof -
  have len: "length (nexts lst) = capacity lst"
    using assms by (simp_all add: list_inv_def)
  have all: "list_all (\<lambda>x. x < length (nexts lst)) (nexts lst)"
    using assms by (simp add: list_inv_def)
  have "length (frees lst) < capacity lst"
    using inv_len_frees [OF assms(1)] inv_size_le [OF assms(1)] inv_size_pos [OF assms(1)]
    by arith
  then show ?thesis
    unfolding frees_def using chain_walk [OF all] assms(2) len by simp
qed

lemma inv_slots:
  assumes "list_inv lst"
  shows "set (actives lst) \<union> set (frees lst) = {1..<capacity lst}"
proof -
  have len: "length (nexts lst) = capacity lst"
    using assms by (simp add: list_inv_def)
  have sub: "set (actives lst @ frees lst) \<subseteq> {1..<capacity lst}"
    using walk_set [of _ "nexts lst" "capacity lst"] len
    by (fastforce simp: actives_def frees_def)
  have "distinct (actives lst @ frees lst)"
    using assms by (simp add: list_inv_def)
  then have "card (set (actives lst @ frees lst)) = length (actives lst @ frees lst)"
    by (rule distinct_card)
  also have "\<dots> = capacity lst - 1"
    using assms by (simp add: list_inv_def)
  finally have "card (set (actives lst @ frees lst)) = card {1..<capacity lst}"
    by simp
  with sub have "set (actives lst @ frees lst) = {1..<capacity lst}"
    by (simp add: card_subset_eq)
  then show ?thesis by simp
qed

lemma on_element_active:
  assumes "list_inv lst" and "on_element lst it"
  shows "it \<in> set (actives lst)"
proof -
  have "it \<in> {1..<capacity lst}"
    using assms(2) by (simp add: on_element_def)
  then have "it \<in> set (actives lst) \<union> set (frees lst)"
    using inv_slots [OF assms(1)] by simp
  moreover have "it \<notin> set (frees lst)"
    using assms by (auto simp: list_inv_def on_element_def list_all_iff)
  ultimately show ?thesis by simp
qed

lemma nexts_zero_iff_tail:
  assumes "list_inv lst" and "it = 0 \<or> on_element lst it"
  shows "nexts lst ! it = 0 \<longleftrightarrow> it = tail lst"
proof (cases "it = 0")
  case True
  have c: "chain (nexts lst) (head lst) (actives lst) 0"
    by (rule inv_actives_chain [OF assms(1)])
  have t: "tail lst = last (0 # actives lst)" and h: "nexts lst ! 0 = head lst"
    using assms(1) by (simp_all add: list_inv_def)
  show ?thesis
  proof (cases "actives lst")
    case Nil
    then show ?thesis using c t h True by simp
  next
    case (Cons x xs)
    then have "last (actives lst) \<in> set (actives lst)" by simp
    then have "last (actives lst) \<noteq> 0"
      using chain_nonzero [OF c] by blast
    then show ?thesis using c t h True Cons by auto
  qed
next
  case False
  then have "it \<in> set (actives lst)"
    using assms on_element_active by blast
  then obtain ys zs where split: "actives lst = ys @ it # zs"
    by (auto simp: in_set_conv_decomp)
  have c: "chain (nexts lst) (head lst) (ys @ it # zs) 0"
    using inv_actives_chain [OF assms(1)] split by simp
  have d: "distinct (ys @ it # zs)"
    using inv_distinct [OF assms(1)] split by auto
  have t: "tail lst = last (it # zs)"
    using inv_tail [OF assms(1)] split by simp
  from c have z: "chain (nexts lst) (nexts lst ! it) zs 0"
    by (auto simp: chain_append)
  show ?thesis
  proof (cases zs)
    case Nil
    then show ?thesis using z t by simp
  next
    case (Cons z' zs')
    then have "last (it # zs) \<in> set zs" by simp
    then have "last (it # zs) \<noteq> it" using d by auto
    then show ?thesis using z t Cons by auto
  qed
qed


section \<open>What insertion and erasure compute\<close>

subsection \<open>Growth reads past the old arrays\<close>

text \<open>
  Whenever \<^verbatim>\<open>list_change_capacity\<close> is asked for more slots than the list has and the
  allocation succeeds, its \<^verbatim>\<open>memcpy\<close> calls read \<open>new_capacity\<close> slots from arrays of
  \<open>capacity\<close> slots.
\<close>

lemma change_capacity_grow_out_of_bounds:
  assumes "length (data lst) = capacity lst" and "size_l lst \<le> wrap (n + 1)"
    and "capacity lst < wrap (n + 1)"
  shows "list_change_capacity lst n True = None"
  using assms by (simp add: list_change_capacity_def Let_def memcpy_slots_def)

lemma inv_capacity_bound: "list_inv lst \<Longrightarrow> 8 * capacity lst < 2 ^ 64"
  using inv_fits [of lst] by (simp add: fits_size_t_iff)

lemma grow_when_full:
  assumes "list_inv lst" and "size_l lst = capacity lst"
  shows "list_change_capacity lst (wrap (capacity lst * CAPACITY_COEFF)) a =
           (if a then None else Some (LIST_ALLOC_ERR, lst))"
proof -
  have b: "8 * capacity lst < 2 ^ 64"
    by (rule inv_capacity_bound [OF assms(1)])
  have w1: "wrap (capacity lst * CAPACITY_COEFF) = 2 * capacity lst"
    using b by (simp add: CAPACITY_COEFF_def wrap_id)
  have w2: "wrap (2 * capacity lst + 1) = 2 * capacity lst + 1"
    using b by (simp add: wrap_id)
  have pos: "0 < capacity lst"
    using inv_size_pos [OF assms(1)] inv_size_le [OF assms(1)] by arith
  show ?thesis
  proof (cases a)
    case True
    have "list_change_capacity lst (2 * capacity lst) True = None"
      using assms(2) pos w2 inv_len_data [OF assms(1)]
      by (intro change_capacity_grow_out_of_bounds) simp_all
    then show ?thesis using True w1 by simp
  next
    case False
    then show ?thesis
      using assms(2) pos w1 w2 by (simp add: list_change_capacity_def)
  qed
qed

lemma first_free_is_free:
  assumes "list_inv lst" and "size_l lst < capacity lst"
  shows "first_free lst \<noteq> 0" and "first_free lst < capacity lst"
    and "first_free lst \<in> set (frees lst)"
    and "prevs lst ! first_free lst = first_free lst"
    and "frees lst = first_free lst # walk (nexts lst) (capacity lst) (nexts lst ! first_free lst)"
proof -
  have ff: "first_free lst < capacity lst"
    using inv_first_free [OF assms(1)] inv_size_pos [OF assms(1)] assms(2) by arith
  have c: "chain (nexts lst) (first_free lst) (frees lst) 0"
    by (rule inv_frees_chain [OF assms(1) ff])
  have "frees lst \<noteq> []"
    using inv_len_frees [OF assms(1)] assms(2) by auto
  then obtain f fs where fs: "frees lst = f # fs"
    by (cases "frees lst") auto
  with c have f: "first_free lst = f" "f \<noteq> 0" "chain (nexts lst) (nexts lst ! f) fs 0"
    by auto
  show "first_free lst \<noteq> 0" using f by simp
  show "first_free lst < capacity lst" by (rule ff)
  show in_frees: "first_free lst \<in> set (frees lst)" using f fs by simp
  show "prevs lst ! first_free lst = first_free lst"
    using inv_free_marks [OF assms(1)] in_frees by (simp add: list_all_iff)
  have "length fs < capacity lst"
    using inv_len_frees [OF assms(1)] fs by simp
  then have "walk (nexts lst) (capacity lst) (nexts lst ! f) = fs"
    using walk_chain [OF f(3)] by simp
  then show "frees lst = first_free lst # walk (nexts lst) (capacity lst) (nexts lst ! first_free lst)"
    using f fs by simp
qed

lemma remove_first_free_result:
  assumes "list_inv lst"
  shows "list_remove_first_free lst a =
           (if size_l lst = capacity lst
            then (if a then None else Some (LIST_ALLOC_ERR, lst, 0))
            else Some (LIST_NO_ERR,
                       lst\<lparr>size_l := size_l lst + 1,
                           first_free := nexts lst ! first_free lst\<rparr>,
                       first_free lst))"
proof (cases "size_l lst = capacity lst")
  case True
  then show ?thesis
    using grow_when_full [OF assms True, of a] by (simp add: list_remove_first_free_def)
next
  case False
  then have lt: "size_l lst < capacity lst"
    using inv_size_le [OF assms] by simp
  show ?thesis
    using False first_free_is_free(2) [OF assms lt] inv_len_nexts [OF assms]
    by (simp add: list_remove_first_free_def)
qed

lemma valid_iterator_bounds:
  assumes "list_inv lst" and "it = 0 \<or> on_element lst it"
  shows "it < capacity lst" and "nexts lst ! it < capacity lst" and "prevs lst ! it < capacity lst"
proof -
  have pos: "0 < capacity lst"
    using inv_size_pos [OF assms(1)] inv_size_le [OF assms(1)] by arith
  show it: "it < capacity lst"
    using assms(2) pos by (auto simp: on_element_def)
  show "nexts lst ! it < capacity lst"
    using inv_nexts_bound [OF assms(1)] inv_len_nexts [OF assms(1)] it
    by (simp add: list_all_length)
  show "prevs lst ! it < capacity lst"
    using inv_prevs_bound [OF assms(1)] inv_len_prevs [OF assms(1)] it
    by (simp add: list_all_length)
qed

lemma next_of_valid_not_free:
  assumes "list_inv lst" and "it = 0 \<or> on_element lst it"
  shows "nexts lst ! it \<notin> set (frees lst)"
proof -
  have c: "chain (nexts lst) (head lst) (actives lst) 0"
    by (rule inv_actives_chain [OF assms(1)])
  have d: "distinct (actives lst @ frees lst)"
    by (rule inv_distinct [OF assms(1)])
  have z: "0 \<notin> set (frees lst)"
    using walk_set [of 0 "nexts lst" "capacity lst" "first_free lst"] by (auto simp: frees_def)
  have "nexts lst ! it = 0 \<or> nexts lst ! it \<in> set (actives lst)"
  proof (cases "it = 0")
    case True
    then show ?thesis
      using c inv_nexts0 [OF assms(1)] by (cases "actives lst") auto
  next
    case False
    then have "it \<in> set (actives lst)"
      using assms on_element_active by blast
    then obtain ys zs where split: "actives lst = ys @ it # zs"
      by (auto simp: in_set_conv_decomp)
    then have "chain (nexts lst) (nexts lst ! it) zs 0"
      using c by (auto simp: chain_append)
    then show ?thesis
      using split by (cases zs) auto
  qed
  then show ?thesis using d z by auto
qed

lemma insert_after_result:
  assumes "list_inv lst" and "it = 0 \<or> on_element lst it" and "size_l lst < capacity lst"
  shows "list_insert_after lst it v a =
           Some (LIST_NO_ERR,
                 lst\<lparr>data := (data lst)[first_free lst := v],
                     nexts := (nexts lst)[first_free lst := nexts lst ! it, it := first_free lst],
                     prevs := (prevs lst)[first_free lst := it, nexts lst ! it := first_free lst],
                     size_l := size_l lst + 1,
                     first_free := nexts lst ! first_free lst,
                     tail := (if nexts lst ! it = 0 then first_free lst else tail lst),
                     normalized := (if nexts lst ! it = 0 then normalized lst else False),
                     head := (if it = 0 then first_free lst else head lst)\<rparr>)"
proof -
  note ff = first_free_is_free [OF assms(1,3)]
  note vb = valid_iterator_bounds [OF assms(1,2)]
  have ne: "it \<noteq> first_free lst"
    using assms(2) ff by (auto simp: on_element_def)
  have nn: "nexts lst ! it \<noteq> first_free lst"
    using next_of_valid_not_free [OF assms(1,2)] ff(3) by auto
  have ok: "list_check_iterator lst it = Some True"
    using assms(1,2) by (auto simp: check_iterator_inv on_element_def)
  show ?thesis
    using ne nn ok ff(2) vb assms(3)
      inv_len_data [OF assms(1)] inv_len_nexts [OF assms(1)] inv_len_prevs [OF assms(1)]
    by (simp add: list_insert_after_def remove_first_free_result [OF assms(1)] Let_def)
qed


lemma insert_after_eq:
  assumes "list_inv lst"
  shows "list_insert_after lst it v a =
           (if \<not> (it = 0 \<or> on_element lst it) then Some (LIST_BAD_ITERATOR, lst)
            else if size_l lst = capacity lst
            then (if a then None else Some (LIST_ALLOC_ERR, lst))
            else Some (LIST_NO_ERR,
                 lst\<lparr>data := (data lst)[first_free lst := v],
                     nexts := (nexts lst)[first_free lst := nexts lst ! it, it := first_free lst],
                     prevs := (prevs lst)[first_free lst := it, nexts lst ! it := first_free lst],
                     size_l := size_l lst + 1,
                     first_free := nexts lst ! first_free lst,
                     tail := (if nexts lst ! it = 0 then first_free lst else tail lst),
                     normalized := (if nexts lst ! it = 0 then normalized lst else False),
                     head := (if it = 0 then first_free lst else head lst)\<rparr>))"
proof (cases "it = 0 \<or> on_element lst it")
  case False
  then show ?thesis
    using assms by (auto simp: list_insert_after_def check_iterator_inv on_element_def)
next
  case valid: True
  show ?thesis
  proof (cases "size_l lst = capacity lst")
    case True
    have "list_check_iterator lst it = Some True"
      using assms valid by (auto simp: check_iterator_inv on_element_def)
    then show ?thesis
      using valid True by (simp add: list_insert_after_def remove_first_free_result [OF assms])
  next
    case False
    then have "size_l lst < capacity lst"
      using inv_size_le [OF assms] by simp
    then show ?thesis
      using insert_after_result [OF assms valid] valid False by simp
  qed
qed

lemma erase_result:
  assumes "list_inv lst" and "on_element lst it"
  shows "list_erase lst it =
           Some (LIST_NO_ERR,
                 lst\<lparr>nexts := (nexts lst)[prevs lst ! it := nexts lst ! it, it := first_free lst],
                     prevs := (prevs lst)[nexts lst ! it := prevs lst ! it, it := it],
                     first_free := it,
                     head := (if it = head lst then nexts lst ! it else head lst),
                     tail := (if it = tail lst then prevs lst ! it else tail lst),
                     normalized := (if it = tail lst then normalized lst else False),
                     size_l := size_l lst - 1\<rparr>,
                 if nexts lst ! it \<noteq> 0 then nexts lst ! it else prevs lst ! it)"
proof -
  have v: "it = 0 \<or> on_element lst it" using assms(2) by simp
  note vb = valid_iterator_bounds [OF assms(1) v]
  have ok: "list_check_iterator lst it = Some True"
    using assms by (auto simp: check_iterator_inv on_element_def)
  have nz: "it \<noteq> 0" using assms(2) by (simp add: on_element_def)
  show ?thesis
    using ok nz vb inv_len_nexts [OF assms(1)] inv_len_prevs [OF assms(1)]
    by (simp add: list_erase_def Let_def)
qed


lemma head_prev_is_tail_iff:
  assumes "list_inv lst"
  shows "prevs lst ! head lst = tail lst \<longleftrightarrow> head lst = 0"
proof (cases "actives lst")
  case Nil
  then have "head lst = 0"
    using inv_actives_chain [OF assms] by simp
  then show ?thesis
    using inv_prevs0 [OF assms] by simp
next
  case (Cons x xs)
  then have h: "head lst = x" "x \<noteq> 0"
    using inv_actives_chain [OF assms] by simp_all
  have "prevs lst ! x = 0"
    using inv_linked_back [OF assms] Cons by simp
  moreover have "last (x # xs) \<in> set (actives lst)"
    using Cons by simp
  then have "last (x # xs) \<noteq> 0"
    using chain_nonzero [OF inv_actives_chain [OF assms]] by blast
  then have "tail lst \<noteq> 0"
    using inv_tail [OF assms] Cons by simp
  ultimately show ?thesis using h by simp
qed

subsection \<open>Erasure keeps the invariant\<close>

lemma erase_preserves_inv:
  assumes inv: "list_inv lst" and el: "on_element lst it"
    and res: "list_erase lst it = Some (e, lst', it')"
  shows "\<exists>ys zs. actives lst = ys @ it # zs \<and> actives lst' = ys @ zs
                 \<and> it' = (if zs = [] then last (0 # ys) else hd zs)"
    and "frees lst' = it # frees lst"
    and "list_inv lst'"
proof -
  define nx where "nx = nexts lst"
  define pv where "pv = prevs lst"
  define cap where "cap = capacity lst"
  define nxt where "nxt = nx ! it"
  define prv where "prv = pv ! it"
  define nx' where "nx' = nx[prv := nxt, it := first_free lst]"
  define pv' where "pv' = pv[nxt := prv, it := it]"
  have lst': "lst' = lst\<lparr>nexts := nx', prevs := pv', first_free := it,
                     head := (if it = head lst then nxt else head lst),
                     tail := (if it = tail lst then prv else tail lst),
                     normalized := (if it = tail lst then normalized lst else False),
                     size_l := size_l lst - 1\<rparr>"
    and it': "it' = (if nxt \<noteq> 0 then nxt else prv)"
    using res unfolding erase_result [OF inv el] nx'_def pv'_def nxt_def prv_def nx_def pv_def
    by simp_all
  have len: "length nx = cap" "length pv = cap"
    using inv_len_nexts [OF inv] inv_len_prevs [OF inv] by (simp_all add: nx_def pv_def cap_def)
  have itb: "it \<noteq> 0" "it < cap"
    using el by (simp_all add: on_element_def cap_def)
  have cap1: "1 < cap" using itb by simp
  have ffb: "first_free lst < cap"
    using inv_first_free [OF inv] cap1 by (simp add: cap_def)
  have act: "it \<in> set (actives lst)"
    by (rule on_element_active [OF inv el])
  then obtain ys zs where split: "actives lst = ys @ it # zs"
    by (auto simp: in_set_conv_decomp)
  have dist: "distinct (ys @ it # zs @ frees lst)"
    using inv_distinct [OF inv] split by simp
  have ca: "chain nx (head lst) (ys @ it # zs) 0"
    using inv_actives_chain [OF inv] split by (simp add: nx_def)
  have cf: "chain nx (first_free lst) (frees lst) 0"
    using inv_frees_chain [OF inv] ffb by (simp add: nx_def cap_def)
  have cy: "chain nx (head lst) ys it" and cz: "chain nx nxt zs 0"
    using ca by (auto simp: chain_append nxt_def)
  have lb: "linked_back pv 0 ys" "prv = last (0 # ys)" "linked_back pv it zs"
    using inv_linked_back [OF inv] split by (auto simp: linked_back_append pv_def prv_def)
  have nz: "0 \<notin> set ys" "0 \<notin> set zs" "0 \<notin> set (frees lst)"
    using chain_nonzero [OF ca] chain_nonzero [OF cf] by auto
  have prv_cases: "(ys = [] \<and> prv = 0) \<or> (ys \<noteq> [] \<and> prv = last ys \<and> prv \<in> set ys)"
    using lb(2) by (cases ys) auto
  have nxt_cases: "(zs = [] \<and> nxt = 0) \<or> (zs \<noteq> [] \<and> nxt = hd zs \<and> nxt \<in> set zs)"
    using cz by (cases zs) auto
  have prv_nz: "prv = 0 \<longleftrightarrow> ys = []"
    using prv_cases nz by auto
  have nxt_nz: "nxt = 0 \<longleftrightarrow> zs = []"
    using nxt_cases nz by auto
  have head_it: "it = head lst \<longleftrightarrow> ys = []"
    using cy dist by (cases ys) auto
  have tail_it: "it = tail lst \<longleftrightarrow> zs = []"
  proof (cases zs)
    case Nil
    then show ?thesis using inv_tail [OF inv] split by simp
  next
    case (Cons z zs')
    then have "last (it # zs) \<in> set zs" by simp
    then have "last (it # zs) \<noteq> it" using dist by auto
    then show ?thesis using inv_tail [OF inv] split Cons by auto
  qed
  have prv_b: "prv < cap" and nxt_b: "nxt < cap"
    using valid_iterator_bounds [OF inv, of it] el
    by (simp_all add: prv_def nxt_def pv_def nx_def cap_def)
  have prv_notin: "prv \<notin> set zs" "prv \<notin> set (frees lst)" "prv \<noteq> it"
    using prv_cases nz dist itb by auto
  have nxt_notin: "nxt \<notin> set ys" "nxt \<notin> set (frees lst)" "nxt \<noteq> it"
    using nxt_cases nz dist itb by auto
  have it_notin: "it \<notin> set ys" "it \<notin> set zs" "it \<notin> set (frees lst)"
    using dist by auto
  have cz': "chain nx' nxt zs 0"
    using cz prv_notin(1) it_notin(2) by (simp add: nx'_def chain_upd)
  have ca': "chain nx' (if it = head lst then nxt else head lst) (ys @ zs) 0"
  proof (cases ys rule: rev_cases)
    case Nil
    then show ?thesis using cz' head_it by simp
  next
    case (snoc ys0 y)
    then have y: "prv = y" using lb(2) by simp
    have "chain nx (head lst) ys0 y" "y \<noteq> 0" "y < length nx"
      using cy snoc by (auto simp: chain_append)
    moreover have "y \<notin> set ys0" "it \<notin> set ys0" "y \<noteq> it"
      using dist snoc by auto
    ultimately have "chain nx' (head lst) ys0 y" "nx' ! y = nxt"
      using y by (simp_all add: nx'_def chain_upd)
    then have "chain nx' (head lst) (ys0 @ y # zs) 0"
      using cz' \<open>y \<noteq> 0\<close> \<open>y < length nx\<close> by (auto simp: chain_append nx'_def)
    then show ?thesis using snoc head_it by simp
  qed
  have lens: "length (actives lst) = size_l lst - 1" "length (frees lst) = cap - size_l lst"
    "size_l lst \<le> cap" "1 \<le> size_l lst"
    using inv_len_actives [OF inv] inv_len_frees [OF inv] inv_size_le [OF inv]
      inv_size_pos [OF inv] by (simp_all add: cap_def)
  have size2: "2 \<le> size_l lst"
    using lens(1) split by simp
  have act': "actives lst' = ys @ zs"
  proof -
    have "length (ys @ zs) < cap"
      using lens split by simp
    then show ?thesis
      using walk_chain [OF ca'] by (simp add: actives_def lst' cap_def)
  qed
  have cf': "chain nx' it (it # frees lst) 0"
    using cf prv_notin(2) it_notin(3) itb len
    by (simp add: nx'_def chain_upd)
  have fr': "frees lst' = it # frees lst"
  proof -
    have "length (it # frees lst) < cap"
      using lens size2 by simp
    then show ?thesis
      using walk_chain [OF cf'] by (simp add: frees_def lst' cap_def)
  qed
  have lb': "linked_back pv' 0 (ys @ zs)"
  proof -
    have "linked_back pv' 0 ys"
      using lb(1) nxt_notin(1) it_notin(1) by (simp add: pv'_def linked_back_upd)
    moreover have "linked_back pv' prv zs"
    proof (cases zs)
      case Nil
      then show ?thesis by simp
    next
      case (Cons z zs0)
      then have z: "nxt = z" using cz by simp
      have "z \<notin> set zs0" "it \<notin> set zs0" "z \<noteq> it"
        using dist Cons by auto
      moreover have "linked_back pv z zs0" "z < length pv"
        using lb(3) Cons nxt_b z len by simp_all
      ultimately show ?thesis
        using Cons z by (simp add: pv'_def linked_back_upd)
    qed
    ultimately show ?thesis
      using lb(2) by (simp add: linked_back_append)
  qed
  have marks': "list_all (\<lambda>f. pv' ! f = f) (it # frees lst)"
  proof -
    have "pv' ! f = f" if "f \<in> set (frees lst)" for f
    proof -
      have "f \<noteq> nxt" "f \<noteq> it" using that nxt_notin(2) it_notin(3) by auto
      then show ?thesis
        using inv_free_marks [OF inv] that by (simp add: pv'_def pv_def list_all_iff)
    qed
    then show ?thesis
      using itb len by (simp add: pv'_def list_all_iff)
  qed
  have bounds': "list_all (\<lambda>x. x < cap) nx'" "list_all (\<lambda>x. x < cap) pv'"
  proof -
    have "set nx' \<subseteq> insert (first_free lst) (insert nxt (set nx))"
      unfolding nx'_def by (meson set_update_subset_insert subset_trans insert_mono)
    then show "list_all (\<lambda>x. x < cap) nx'"
      using inv_nexts_bound [OF inv] ffb nxt_b by (auto simp: list_all_iff nx_def cap_def)
    have "set pv' \<subseteq> insert it (insert prv (set pv))"
      unfolding pv'_def by (meson set_update_subset_insert subset_trans insert_mono)
    then show "list_all (\<lambda>x. x < cap) pv'"
      using inv_prevs_bound [OF inv] itb prv_b by (auto simp: list_all_iff pv_def cap_def)
  qed
  have n0: "nx' ! 0 = (if it = head lst then nxt else head lst)"
    using itb len cap1 inv_nexts0 [OF inv] prv_nz head_it prv_b
    by (auto simp: nx'_def nx_def nth_list_update)
  have p0: "pv' ! 0 = (if it = tail lst then prv else tail lst)"
    using itb len cap1 inv_prevs0 [OF inv] nxt_nz tail_it nxt_b
    by (auto simp: pv'_def pv_def nth_list_update)
  have tl': "(if it = tail lst then prv else tail lst) = last (0 # ys @ zs)"
  proof (cases zs)
    case Nil
    then show ?thesis using tail_it lb(2) by simp
  next
    case (Cons z zs0)
    then show ?thesis using tail_it inv_tail [OF inv] split by simp
  qed
  show "\<exists>ys zs. actives lst = ys @ it # zs \<and> actives lst' = ys @ zs
                 \<and> it' = (if zs = [] then last (0 # ys) else hd zs)"
    using split act' it' nxt_cases lb(2) nxt_nz by (intro exI [of _ ys] exI [of _ zs]) auto
  show "frees lst' = it # frees lst" by (rule fr')
  have len': "length nx' = cap" "length pv' = cap"
    using len by (simp_all add: nx'_def pv'_def)
  have arith: "size_l lst - 1 \<le> cap" "1 \<le> size_l lst - 1"
    "length (ys @ zs) = size_l lst - 1 - 1"
    "length (it # frees lst) = cap - (size_l lst - 1)"
    using lens size2 split by simp_all
  have dist': "distinct ((ys @ zs) @ it # frees lst)"
    using dist by auto
  show "list_inv lst'"
    unfolding list_inv_def act' fr'
    using len' itb arith dist' lb' marks' bounds' n0 p0 tl'
      inv_len_data [OF inv] inv_fits [OF inv] inv_elem_size [OF inv]
    by (simp add: lst' cap_def del: length_append distinct_append append_assoc list.size)
qed

subsection \<open>Normalisation stays inside the arrays\<close>

lemma list_all_update: "list_all P xs \<Longrightarrow> P v \<Longrightarrow> list_all P (xs[k := v])"
  using set_update_subset_insert [of xs k v] by (auto simp: list_all_iff)

lemma list_all_nth: "list_all P xs \<Longrightarrow> k < length xs \<Longrightarrow> P (xs ! k)"
  by (simp add: list_all_length)

lemma inv_in_bounds: "list_inv lst \<Longrightarrow> in_bounds lst"
  by (simp add: in_bounds_def list_inv_def)

lemma normalize_body_in_bounds:
  assumes "in_bounds lst" and "0 < i" and "i < size_l lst" and "it < capacity lst"
  shows "\<exists>lst' it'. normalize_body lst i it = Some (lst', it') \<and> in_bounds lst'
           \<and> it' < capacity lst' \<and> capacity lst' = capacity lst \<and> size_l lst' = size_l lst
           \<and> elem_size lst' = elem_size lst \<and> normalized lst' = normalized lst"
proof -
  let ?cap = "capacity lst"
  have len: "length (data lst) = ?cap" "length (nexts lst) = ?cap" "length (prevs lst) = ?cap"
    and sz: "size_l lst \<le> ?cap"
    and nb: "list_all (\<lambda>x. x < ?cap) (nexts lst)" and pb: "list_all (\<lambda>x. x < ?cap) (prevs lst)"
    using assms(1) by (simp_all add: in_bounds_def)
  have md: "(i + 1) mod size_l lst < ?cap"
    by (rule less_le_trans [OF mod_less_divisor]) (use assms(3) sz in auto)
  have ib: "i < ?cap" "i - 1 < ?cap" "0 < ?cap"
    using assms(2,3) sz by auto
  have nit: "nexts lst ! it < ?cap"
    by (rule list_all_nth [OF nb]) (simp add: len assms(4))
  have ni: "nexts lst ! i < ?cap"
    by (rule list_all_nth [OF nb]) (simp add: len ib)
  have pi: "prevs lst ! i < ?cap"
    by (rule list_all_nth [OF pb]) (simp add: len ib)
  show ?thesis
  proof (cases "i = it")
    case True
    have "normalize_body lst i it =
            Some (lst\<lparr>nexts := (nexts lst)[i := (i + 1) mod size_l lst],
                      prevs := (prevs lst)[i := i - 1]\<rparr>, nexts lst ! it)"
      using True len ib by (simp add: normalize_body_def)
    moreover have "list_all (\<lambda>x. x < ?cap) ((nexts lst)[i := (i + 1) mod size_l lst])"
      by (rule list_all_update [OF nb md])
    moreover have "list_all (\<lambda>x. x < ?cap) ((prevs lst)[i := i - 1])"
      by (rule list_all_update [OF pb ib(2)])
    ultimately show ?thesis
      using len sz nit by (simp add: in_bounds_def)
  next
    case False
    define n1 where "n1 = (nexts lst)[it := nexts lst ! i]"
    have n1b: "list_all (\<lambda>x. x < ?cap) n1"
      unfolding n1_def by (rule list_all_update [OF nb ni])
    have n1l: "length n1 = ?cap"
      by (simp add: n1_def len)
    define t where "t = n1 ! (prevs lst ! i)"
    have tb: "t < ?cap"
      unfolding t_def by (rule list_all_nth [OF n1b]) (simp add: n1l pi)
    define n2 where "n2 = n1[prevs lst ! i := (if t > i then it else t)]"
    have n2b: "list_all (\<lambda>x. x < ?cap) n2"
      unfolding n2_def by (rule list_all_update [OF n1b]) (simp add: tb assms(4))
    define n3 where "n3 = n2[i := (i + 1) mod size_l lst]"
    have n3b: "list_all (\<lambda>x. x < ?cap) n3"
      unfolding n3_def by (rule list_all_update [OF n2b md])
    have n3l: "length n3 = ?cap"
      by (simp add: n3_def n2_def n1l)
    have p1b: "list_all (\<lambda>x. x < ?cap) ((prevs lst)[i := i - 1])"
      by (rule list_all_update [OF pb ib(2)])
    define d1 where "d1 = (data lst)[0 := data lst ! i]"
    define d2 where "d2 = d1[i := d1 ! it]"
    define d3 where "d3 = d2[it := d2 ! 0]"
    have dl: "length d1 = ?cap" "length d2 = ?cap" "length d3 = ?cap"
      by (simp_all add: d1_def d2_def d3_def len)
    have sw: "list_swap_vals (lst\<lparr>nexts := n1\<rparr>) i it = Some (lst\<lparr>nexts := n1, data := d3\<rparr>)"
      using len ib assms(4) dl(1,2)
      by (simp add: list_swap_vals_def d3_def [symmetric] d2_def [symmetric] d1_def [symmetric])
    have "normalize_body lst i it =
            Some (lst\<lparr>nexts := n3, data := d3, prevs := (prevs lst)[i := i - 1]\<rparr>, nexts lst ! it)"
      using False len ib assms(4) n1l pi sw
      by (simp add: normalize_body_def n3_def n2_def t_def n1_def [symmetric])
    then show ?thesis
      using len sz n3b n3l p1b nit dl by (simp add: in_bounds_def)
  qed
qed

lemma normalize_loop_in_bounds:
  "in_bounds lst \<Longrightarrow> 0 < i \<Longrightarrow> it < capacity lst \<Longrightarrow>
   \<exists>lst'. normalize_loop lst i it = Some lst' \<and> in_bounds lst'
      \<and> capacity lst' = capacity lst \<and> size_l lst' = size_l lst
      \<and> elem_size lst' = elem_size lst \<and> normalized lst' = normalized lst"
proof (induction lst i it rule: normalize_loop.induct)
  case (1 lst i it)
  show ?case
  proof (cases "i < size_l lst")
    case False
    then show ?thesis
      using "1.prems"(1) by (subst normalize_loop.simps) simp
  next
    case True
    obtain l1 it1 where b: "normalize_body lst i it = Some (l1, it1)" "in_bounds l1"
      "it1 < capacity l1" "capacity l1 = capacity lst" "size_l l1 = size_l lst"
      "elem_size l1 = elem_size lst" "normalized l1 = normalized lst"
      using normalize_body_in_bounds [OF "1.prems"(1,2) True "1.prems"(3)] by blast
    have "\<exists>lst'. normalize_loop l1 (i + 1) it1 = Some lst' \<and> in_bounds lst'
      \<and> capacity lst' = capacity l1 \<and> size_l lst' = size_l l1
      \<and> elem_size lst' = elem_size l1 \<and> normalized lst' = normalized l1"
      using "1.IH" [OF True b(1) refl b(2) _ b(3)] by simp
    then show ?thesis
      using True b by (subst normalize_loop.simps) auto
  qed
qed

lemma fill_free_Some:
  "hi \<le> length (fst np) \<Longrightarrow> hi \<le> length (snd np) \<Longrightarrow>
   \<exists>r. fill_free np i hi m = Some r \<and> length (fst r) = length (fst np)
        \<and> length (snd r) = length (snd np)"
proof (induction np i hi m rule: fill_free.induct)
  case (1 np i hi m)
  show ?case
  proof (cases "i < hi")
    case False
    then show ?thesis by (subst fill_free.simps) simp
  next
    case True
    then have w: "wr (fst np) i ((i + 1) mod m) = Some ((fst np)[i := (i + 1) mod m])"
      "wr (snd np) i i = Some ((snd np)[i := i])"
      using "1.prems" by simp_all
    have "\<exists>r. fill_free ((fst np)[i := (i + 1) mod m], (snd np)[i := i]) (i + 1) hi m = Some r
        \<and> length (fst r) = length (fst ((fst np)[i := (i + 1) mod m], (snd np)[i := i]))
        \<and> length (snd r) = length (snd ((fst np)[i := (i + 1) mod m], (snd np)[i := i]))"
      using "1.IH" [OF True w(1) w(2)] "1.prems" by simp
    then show ?thesis
      using True w by (subst fill_free.simps) auto
  qed
qed

lemma list_normalize_total:
  assumes "list_inv lst"
  shows "\<exists>lst'. list_normalize lst = Some lst' \<and> capacity lst' = capacity lst
           \<and> size_l lst' = size_l lst \<and> elem_size lst' = elem_size lst \<and> normalized lst'
           \<and> length (data lst') = capacity lst \<and> length (nexts lst') = capacity lst
           \<and> length (prevs lst') = capacity lst
           \<and> (normalized lst \<longrightarrow> lst' = lst)"
proof (cases "normalized lst \<or> size_l lst = 1")
  case True
  then show ?thesis
    using inv_len_data [OF assms] inv_len_nexts [OF assms] inv_len_prevs [OF assms]
    by (auto simp: list_normalize_def)
next
  case False
  have ib: "in_bounds (lst\<lparr>normalized := True\<rparr>)"
    using inv_in_bounds [OF assms] by (simp add: in_bounds_def)
  have hb: "head lst < capacity (lst\<lparr>normalized := True\<rparr>)"
    using valid_iterator_bounds(2) [OF assms, of 0] inv_nexts0 [OF assms] by simp
  obtain l1 where l1: "normalize_loop (lst\<lparr>normalized := True\<rparr>) 1 (head lst) = Some l1"
    "in_bounds l1" "capacity l1 = capacity lst" "size_l l1 = size_l lst"
    "elem_size l1 = elem_size lst" "normalized l1"
    using normalize_loop_in_bounds [OF ib _ hb] by auto
  have pos: "0 < capacity lst"
    using inv_size_pos [OF assms] inv_size_le [OF assms] by arith
  have len1: "length (data l1) = capacity lst" "length (nexts l1) = capacity lst"
    "length (prevs l1) = capacity lst"
    using l1(2,3) by (simp_all add: in_bounds_def)
  obtain r where r: "fill_free ((nexts l1)[0 := 1], (prevs l1)[0 := size_l lst - 1])
                       (size_l lst) (capacity lst) (capacity lst) = Some r"
    "length (fst r) = capacity lst" "length (snd r) = capacity lst"
    using fill_free_Some [of "capacity lst" "((nexts l1)[0 := 1], (prevs l1)[0 := size_l lst - 1])"
            "size_l lst" "capacity lst"] len1
    by auto
  obtain n2 p2 where np: "r = (n2, p2)"
    by (cases r)
  have "list_normalize lst =
          Some (l1\<lparr>head := 1, tail := size_l lst - 1,
                   first_free := (if size_l lst < capacity lst \<or> size_l lst = 1
                                  then size_l lst else 0),
                   nexts := n2, prevs := p2\<rparr>)"
    using False l1(1) r(1) np pos
    by (simp add: list_normalize_def Let_def len1 l1(3,4))
  then show ?thesis
    using False l1 len1 r(2,3) np by simp
qed

subsection \<open>Insertion keeps the invariant\<close>

lemma insert_after_preserves_inv:
  assumes inv: "list_inv lst"
    and res: "list_insert_after lst it v a = Some (LIST_NO_ERR, lst')"
  shows "list_inv lst'"
    and "\<exists>pre post. actives lst = pre @ post \<and> last (0 # pre) = it
           \<and> actives lst' = pre @ first_free lst # post"
    and "frees lst = first_free lst # frees lst'"
    and "data lst' = (data lst)[first_free lst := v]"
    and "size_l lst' = size_l lst + 1" and "capacity lst' = capacity lst"
proof -
  have valid: "it = 0 \<or> on_element lst it" and nf: "size_l lst \<noteq> capacity lst"
    using res by (auto simp: insert_after_eq [OF inv] split: if_splits)
  have lt: "size_l lst < capacity lst"
    using nf inv_size_le [OF inv] by simp
  define nx where "nx = nexts lst"
  define pv where "pv = prevs lst"
  define cap where "cap = capacity lst"
  define p where "p = first_free lst"
  define nxt where "nxt = nx ! it"
  define nx' where "nx' = nx[p := nxt, it := p]"
  define pv' where "pv' = pv[p := it, nxt := p]"
  have lst': "lst' = lst\<lparr>data := (data lst)[p := v], nexts := nx', prevs := pv',
                     size_l := size_l lst + 1, first_free := nx ! p,
                     tail := (if nxt = 0 then p else tail lst),
                     normalized := (if nxt = 0 then normalized lst else False),
                     head := (if it = 0 then p else head lst)\<rparr>"
    using res valid nf
    unfolding insert_after_eq [OF inv] nx'_def pv'_def nxt_def nx_def pv_def p_def
    by simp
  have len: "length nx = cap" "length pv = cap"
    using inv_len_nexts [OF inv] inv_len_prevs [OF inv] by (simp_all add: nx_def pv_def cap_def)
  note ff = first_free_is_free [OF inv lt]
  have pb: "p \<noteq> 0" "p < cap" "pv ! p = p"
    using ff by (simp_all add: p_def cap_def pv_def)
  obtain fs where fs: "frees lst = p # fs"
    using ff(5) by (simp add: p_def)
  have cf: "chain nx p (p # fs) 0"
    using inv_frees_chain [OF inv ff(2)] fs by (simp add: nx_def p_def)
  then have cfs: "chain nx (nx ! p) fs 0"
    by simp
  have vb: "it < cap" "nxt < cap"
    using valid_iterator_bounds [OF inv valid] by (simp_all add: cap_def nxt_def nx_def)
  have ca: "chain nx (head lst) (actives lst) 0"
    using inv_actives_chain [OF inv] by (simp add: nx_def)
  have dist: "distinct (actives lst @ p # fs)"
    using inv_distinct [OF inv] fs by simp
  have nz: "0 \<notin> set (actives lst)" "0 \<notin> set fs"
    using chain_nonzero [OF ca] chain_nonzero [OF cfs] by auto
  obtain pre post where split: "actives lst = pre @ post" "last (0 # pre) = it"
    "chain nx (head lst) pre nxt"
    "chain nx nxt post 0" "it \<noteq> 0 \<longrightarrow> pre \<noteq> [] \<and> it \<in> set pre"
    "linked_back pv 0 pre" "linked_back pv it post"
  proof (cases "it = 0")
    case True
    have "chain nx nxt (actives lst) 0"
      using ca inv_nexts0 [OF inv] True by (simp add: nxt_def nx_def)
    moreover have "linked_back pv it (actives lst)"
      using inv_linked_back [OF inv] True by (simp add: pv_def)
    moreover have "head lst = nxt"
      using inv_nexts0 [OF inv] True by (simp add: nxt_def nx_def)
    ultimately show ?thesis
      using that [of "[]" "actives lst"] True by simp
  next
    case False
    then have "it \<in> set (actives lst)"
      using valid on_element_active [OF inv] by blast
    then obtain ys zs where yz: "actives lst = ys @ it # zs"
      by (auto simp: in_set_conv_decomp)
    have "chain nx (head lst) (ys @ [it]) nxt" "chain nx nxt zs 0"
      using ca yz by (auto simp: chain_append nxt_def)
    moreover have "linked_back pv 0 (ys @ [it])" "linked_back pv it zs"
      using inv_linked_back [OF inv] yz by (auto simp: linked_back_append pv_def)
    ultimately show ?thesis
      using that [of "ys @ [it]" zs] yz False by simp
  qed
  have notin: "p \<notin> set pre" "p \<notin> set post" "p \<notin> set fs" "it \<notin> set post" "it \<notin> set fs"
    "it \<noteq> p" "nxt \<noteq> p" "nxt \<notin> set fs" "nxt \<notin> set pre"
  proof -
    show "p \<notin> set pre" "p \<notin> set post" "p \<notin> set fs"
      using dist split(1) by auto
    show "it \<notin> set post" "it \<notin> set fs"
      using dist split(1,5) nz by (cases "it = 0"; auto)+
    show "it \<noteq> p"
      using dist split(1,5) pb(1) by (cases "it = 0") auto
    have "nxt = 0 \<or> nxt \<in> set post"
      using split(4) by (cases post) auto
    then show "nxt \<noteq> p" "nxt \<notin> set fs" "nxt \<notin> set pre"
      using dist split(1) nz pb(1) by auto
  qed
  have nxt_nz: "nxt = 0 \<longleftrightarrow> post = []"
    using split(4) split(1) nz by (cases post) auto
  have it_nz: "it = 0 \<longleftrightarrow> pre = []"
  proof (cases "pre = []")
    case True
    then show ?thesis using split(2) by simp
  next
    case False
    then have "last pre \<in> set (actives lst)"
      using split(1) by simp
    then have "last pre \<noteq> 0"
      using nz(1) by metis
    then show ?thesis using False split(2) by simp
  qed
  have ca': "chain nx' (if it = 0 then p else head lst) (pre @ p # post) 0"
  proof -
    have post': "chain nx' nxt post 0"
      using split(4) notin(2,4) by (simp add: nx'_def chain_upd)
    have pp: "nx' ! p = nxt"
      using notin(6) pb(2) len by (simp add: nx'_def)
    show ?thesis
    proof (cases pre rule: rev_cases)
      case Nil
      then show ?thesis
        using post' pp pb len it_nz by (simp add: nx'_def)
    next
      case (snoc ys y)
      then have y: "y = it" "it \<noteq> 0"
        using split(2) it_nz by auto
      have "chain nx (head lst) ys it"
        using split(3) snoc y by (auto simp: chain_append)
      moreover have "it \<notin> set ys" "p \<notin> set ys"
        using dist split(1) snoc y notin(1) by auto
      ultimately have "chain nx' (head lst) ys it"
        by (simp add: nx'_def chain_upd)
      moreover have "nx' ! it = p"
        using vb(1) len by (simp add: nx'_def)
      ultimately show ?thesis
        using post' pp pb vb len snoc y by (auto simp: chain_append nx'_def)
    qed
  qed
  have lens: "length (actives lst) = size_l lst - 1" "length (frees lst) = cap - size_l lst"
    "1 \<le> size_l lst"
    using inv_len_actives [OF inv] inv_len_frees [OF inv] inv_size_pos [OF inv]
    by (simp_all add: cap_def)
  have act': "actives lst' = pre @ p # post"
  proof -
    have "length (pre @ p # post) < cap"
      using lens lt split(1) by (simp add: cap_def)
    then show ?thesis
      using walk_chain [OF ca'] by (simp add: actives_def lst' cap_def)
  qed
  have cf': "chain nx' (nx ! p) fs 0"
    using cfs notin(3,5) by (simp add: nx'_def chain_upd)
  have fr': "frees lst' = fs"
  proof -
    have "length fs < cap"
      using lens fs by simp
    then show ?thesis
      using walk_chain [OF cf'] by (simp add: frees_def lst' cap_def)
  qed
  have lb': "linked_back pv' 0 (pre @ p # post)"
  proof -
    have "linked_back pv' 0 pre"
      using split(6) notin(1,9) by (simp add: pv'_def linked_back_upd)
    moreover have "pv' ! p = it"
      using notin(7) pb(2) len by (simp add: pv'_def)
    moreover have "linked_back pv' p post"
    proof (cases post)
      case Nil
      then show ?thesis by simp
    next
      case (Cons z zs)
      then have z: "nxt = z" using split(4) by simp
      have "z \<notin> set zs" "p \<notin> set zs"
        using dist split(1) Cons by auto
      moreover have "linked_back pv z zs"
        using split(7) Cons by simp
      ultimately show ?thesis
        using Cons z vb(2) len by (simp add: pv'_def linked_back_upd)
    qed
    ultimately show ?thesis
      using split(2) by (simp add: linked_back_append)
  qed
  have marks': "list_all (\<lambda>f. pv' ! f = f) fs"
  proof -
    have "pv' ! f = f" if "f \<in> set fs" for f
    proof -
      have "f \<noteq> p" "f \<noteq> nxt" using that notin(3,8) by auto
      then show ?thesis
        using inv_free_marks [OF inv] that fs by (simp add: pv'_def pv_def list_all_iff)
    qed
    then show ?thesis by (simp add: list_all_iff)
  qed
  have npb: "nx ! p < cap"
    using inv_nexts_bound [OF inv] len pb(2) by (simp add: list_all_length nx_def cap_def)
  have bounds': "list_all (\<lambda>x. x < cap) nx'" "list_all (\<lambda>x. x < cap) pv'"
    using inv_nexts_bound [OF inv] inv_prevs_bound [OF inv] vb pb(2)
    by (simp_all add: nx'_def pv'_def nx_def pv_def cap_def list_all_update)
  have n0: "nx' ! 0 = (if it = 0 then p else head lst)"
    using len pb inv_nexts0 [OF inv] by (auto simp: nx'_def nx_def nth_list_update)
  have p0: "pv' ! 0 = (if nxt = 0 then p else tail lst)"
    using len pb inv_prevs0 [OF inv] by (auto simp: pv'_def pv_def nth_list_update)
  have tl': "(if nxt = 0 then p else tail lst) = last (0 # pre @ p # post)"
    using nxt_nz inv_tail [OF inv] split(1) by (cases post) auto
  have len': "length nx' = cap" "length pv' = cap" "length ((data lst)[p := v]) = cap"
    using len inv_len_data [OF inv] by (simp_all add: nx'_def pv'_def cap_def)
  have arith: "size_l lst + 1 \<le> cap" "1 \<le> size_l lst + 1"
    "length (pre @ p # post) = size_l lst + 1 - 1"
    "length fs = cap - (size_l lst + 1)"
    using lens lt split(1) fs by (simp_all add: cap_def)
  have dist': "distinct ((pre @ p # post) @ fs)"
    using dist split(1) by auto
  show "list_inv lst'"
    unfolding list_inv_def act' fr'
    using len' arith dist' lb' marks' bounds' n0 p0 tl' npb
      inv_fits [OF inv] inv_elem_size [OF inv]
    by (simp add: lst' cap_def del: length_append distinct_append append_assoc list.size)
  show "\<exists>pre post. actives lst = pre @ post \<and> last (0 # pre) = it
           \<and> actives lst' = pre @ first_free lst # post"
  proof (intro exI conjI)
    show "actives lst = pre @ post" by (rule split(1))
    show "last (0 # pre) = it" by (rule split(2))
    show "actives lst' = pre @ first_free lst # post" using act' by (simp add: p_def)
  qed
  show "frees lst = first_free lst # frees lst'"
    using fs fr' by (simp add: p_def)
  show "data lst' = (data lst)[first_free lst := v]"
    by (simp add: lst' p_def)
  show "size_l lst' = size_l lst + 1" "capacity lst' = capacity lst"
    by (simp_all add: lst')
qed

subsection \<open>The checker accepts every valid list\<close>

lemma verify_free_chain:
  assumes "chain (nexts lst) f fs 0" and "distinct fs"
    and "list_all (\<lambda>x. prevs lst ! x = x) fs"
    and "length (prevs lst) = length (nexts lst)"
    and "k + length fs \<le> capacity lst - size_l lst"
  shows "verify_free lst f k = Some LIST_NO_ERR"
  using assms
proof (induction fs arbitrary: f k)
  case Nil
  then show ?case by (subst verify_free.simps) simp
next
  case (Cons x fs)
  have x: "f = x" "x \<noteq> 0" "x < length (nexts lst)" "chain (nexts lst) (nexts lst ! x) fs 0"
    using Cons.prems(1) by simp_all
  have "nexts lst ! x \<noteq> x"
    using x(2,4) Cons.prems(2) by (cases fs) auto
  moreover have "verify_free lst (nexts lst ! x) (k + 1) = Some LIST_NO_ERR"
    using Cons.IH [OF x(4)] Cons.prems(2,3,4,5) by simp
  ultimately show ?case
    using x Cons.prems(3,4,5) by (subst verify_free.simps) simp
qed

lemma verify_busy_chain:
  assumes "chain (nexts lst) h xs 0" and "linked_back (prevs lst) p xs"
    and "nexts lst ! p = h" and "p < length (nexts lst)"
    and "prevs lst ! 0 = last (p # xs)"
    and "length (prevs lst) = length (nexts lst)" and "0 < length (nexts lst)"
    and "k + length xs < size_l lst"
  shows "verify_busy lst h k = Some LIST_NO_ERR"
  using assms
proof (induction xs arbitrary: h p k)
  case Nil
  then show ?case by (subst verify_busy.simps) simp
next
  case (Cons x xs)
  have x: "h = x" "x \<noteq> 0" "x < length (nexts lst)" "chain (nexts lst) (nexts lst ! x) xs 0"
    using Cons.prems(1) by simp_all
  have lb: "prevs lst ! x = p" "linked_back (prevs lst) x xs"
    using Cons.prems(2) by simp_all
  have nb: "nexts lst ! x < length (nexts lst)"
    using x(4) Cons.prems(7) by (cases xs) auto
  have bk: "prevs lst ! (nexts lst ! x) = x"
  proof (cases xs)
    case Nil
    then show ?thesis using x(4) Cons.prems(5) by simp
  next
    case (Cons y ys)
    then show ?thesis using x(4) lb(2) by simp
  qed
  have "verify_busy lst (nexts lst ! x) (k + 1) = Some LIST_NO_ERR"
    using Cons.IH [OF x(4) lb(2) refl x(3)] Cons.prems(5,6,7,8) by simp
  then show ?case
    using x lb nb bk Cons.prems(3,4,6,8) by (subst verify_busy.simps) simp
qed

lemma inv_verify:
  assumes "list_inv lst"
  shows "list_verify lst = Some LIST_NO_ERR"
proof -
  note len = inv_len_nexts [OF assms] inv_len_prevs [OF assms]
  have pos: "0 < capacity lst"
    using inv_size_pos [OF assms] inv_size_le [OF assms] by arith
  have ca: "chain (nexts lst) (head lst) (actives lst) 0"
    by (rule inv_actives_chain [OF assms])
  have hb: "head lst < capacity lst"
    using valid_iterator_bounds(2) [OF assms, of 0] inv_nexts0 [OF assms] by simp
  have tb: "tail lst < capacity lst"
    using valid_iterator_bounds(3) [OF assms, of 0] inv_prevs0 [OF assms] by simp
  have empty: "head lst = 0 \<and> tail lst = 0" if "size_l lst = 1"
  proof -
    have "actives lst = []"
      using inv_len_actives [OF assms] that by simp
    then show ?thesis
      using ca inv_tail [OF assms] by simp
  qed
  show ?thesis
  proof (cases "capacity lst = 1")
    case True
    then have "size_l lst = 1"
      using inv_size_pos [OF assms] inv_size_le [OF assms] by arith
    then show ?thesis
      using True empty len inv_elem_size [OF assms]
      by (simp add: list_verify_def list_verify_func_def rd_def)
  next
    case False
    then have ffb: "first_free lst < capacity lst"
      using inv_first_free [OF assms] by simp
    have cf: "chain (nexts lst) (first_free lst) (frees lst) 0"
      by (rule inv_frees_chain [OF assms ffb])
    have ffm: "first_free lst \<noteq> 0 \<longrightarrow> prevs lst ! first_free lst = first_free lst"
      using cf inv_free_marks [OF assms] by (cases "frees lst") auto
    have vf: "verify_free lst (first_free lst) 0 = Some LIST_NO_ERR"
      using inv_distinct [OF assms] inv_free_marks [OF assms] len inv_len_frees [OF assms]
      by (intro verify_free_chain [OF cf]) simp_all
    have "0 + length (actives lst) < size_l lst"
      using inv_len_actives [OF assms] inv_size_pos [OF assms] by arith
    then have vb: "verify_busy lst (head lst) 0 = Some LIST_NO_ERR"
      using inv_linked_back [OF assms] inv_nexts0 [OF assms] inv_prevs0 [OF assms]
        inv_tail [OF assms] len pos
      by (intro verify_busy_chain [OF ca, where p = 0]) simp_all
    show ?thesis
      using False ffb ffm hb tb empty vf vb len pos inv_size_pos [OF assms]
        inv_size_le [OF assms] inv_elem_size [OF assms] inv_prevs0 [OF assms]
      by (auto simp: list_verify_def list_verify_func_def)
  qed
qed

subsection \<open>A created list is valid\<close>

lemma fill_free_nth:
  "hi \<le> length (fst np) \<Longrightarrow> hi \<le> length (snd np) \<Longrightarrow>
   \<exists>n' p'. fill_free np i hi m = Some (n', p')
      \<and> length n' = length (fst np) \<and> length p' = length (snd np)
      \<and> (\<forall>k < length (fst np). n' ! k = (if i \<le> k \<and> k < hi then (k + 1) mod m else fst np ! k))
      \<and> (\<forall>k < length (snd np). p' ! k = (if i \<le> k \<and> k < hi then k else snd np ! k))"
proof (induction np i hi m rule: fill_free.induct)
  case (1 np i hi m)
  show ?case
  proof (cases "i < hi")
    case False
    then show ?thesis by (subst fill_free.simps) (cases np; auto)
  next
    case True
    let ?n = "(fst np)[i := (i + 1) mod m]" and ?p = "(snd np)[i := i]"
    have w: "wr (fst np) i ((i + 1) mod m) = Some ?n" "wr (snd np) i i = Some ?p"
      using True "1.prems" by simp_all
    obtain n' p' where r: "fill_free (?n, ?p) (i + 1) hi m = Some (n', p')"
      "length n' = length (fst np)" "length p' = length (snd np)"
      "\<forall>k < length (fst np). n' ! k = (if i + 1 \<le> k \<and> k < hi then (k + 1) mod m else ?n ! k)"
      "\<forall>k < length (snd np). p' ! k = (if i + 1 \<le> k \<and> k < hi then k else ?p ! k)"
      using "1.IH" [OF True w(1) w(2)] "1.prems" by auto
    have "fill_free np i hi m = Some (n', p')"
      using True w r(1) by (subst fill_free.simps) simp
    moreover have "\<forall>k < length (fst np). n' ! k = (if i \<le> k \<and> k < hi then (k + 1) mod m else fst np ! k)"
    proof (intro allI impI)
      fix k
      assume k: "k < length (fst np)"
      show "n' ! k = (if i \<le> k \<and> k < hi then (k + 1) mod m else fst np ! k)"
      proof (cases "k = i")
        case True
        then show ?thesis using r(4) k \<open>i < hi\<close> by simp
      next
        case False
        then have "i \<le> k \<longleftrightarrow> i + 1 \<le> k" by auto
        then show ?thesis using r(4) k False by simp
      qed
    qed
    moreover have "\<forall>k < length (snd np). p' ! k = (if i \<le> k \<and> k < hi then k else snd np ! k)"
    proof (intro allI impI)
      fix k
      assume k: "k < length (snd np)"
      show "p' ! k = (if i \<le> k \<and> k < hi then k else snd np ! k)"
      proof (cases "k = i")
        case True
        then show ?thesis using r(5) k \<open>i < hi\<close> by simp
      next
        case False
        then have "i \<le> k \<longleftrightarrow> i + 1 \<le> k" by auto
        then show ?thesis using r(5) k False by simp
      qed
    qed
    ultimately show ?thesis
      using r(2,3) by blast
  qed
qed

lemma walk_fresh_chain:
  assumes "\<forall>k. 0 < k \<and> k < length nx \<longrightarrow> nx ! k = (k + 1) mod length nx"
  shows "0 < j \<Longrightarrow> length nx - j < fuel \<Longrightarrow> walk nx fuel j = [j..<length nx]"
proof (induction "length nx - j" arbitrary: j fuel)
  case 0
  then show ?case by (cases fuel) auto
next
  case (Suc d)
  then have j: "j < length nx" by simp
  obtain f where f: "fuel = Suc f" "length nx - (j + 1) < f"
    using Suc.prems(2) Suc.hyps(2) by (cases fuel) auto
  have nj: "nx ! j = (j + 1) mod length nx"
    using assms Suc.prems(1) j by simp
  show ?case
  proof (cases "j + 1 < length nx")
    case True
    then have "walk nx f (j + 1) = [j + 1..<length nx]"
      using Suc.hyps(1) [of "j + 1" f] Suc.hyps(2) f(2) by simp
    then show ?thesis
      using f(1) j Suc.prems(1) nj True by (simp add: upt_conv_Cons)
  next
    case False
    then have "j + 1 = length nx"
      using j by simp
    then have "nx ! j = 0" "j + 1 = length nx"
      using nj by simp_all
    then show ?thesis
      using f(1) j Suc.prems(1) by (cases f) (auto simp: upt_conv_Cons)
  qed
qed

lemma created_list_valid:
  assumes "list_create_func n es True = Some (Some lst)" and "8 * (n + 1) < 2 ^ 64"
  shows "list_inv lst" and "actives lst = []" and "capacity lst = n + 1" and "elem_size lst = es"
proof -
  have es: "es \<noteq> 0"
    using assms(1) by (auto simp: list_create_func_def split: if_splits)
  have w: "wrap (n + 1) = n + 1"
    using assms(2) by (simp add: wrap_id)
  let ?z = "replicate (n + 1) (0::nat)"
  obtain n' p' where ff0: "fill_free (?z[0 := 0], ?z[0 := 0]) 1 (n + 1) (n + 1) = Some (n', p')"
    "length n' = length ?z" "length p' = length ?z"
    "\<forall>k < length ?z. n' ! k = (if 1 \<le> k \<and> k < n + 1 then (k + 1) mod (n + 1) else ?z[0 := 0] ! k)"
    "\<forall>k < length ?z. p' ! k = (if 1 \<le> k \<and> k < n + 1 then k else ?z[0 := 0] ! k)"
    using fill_free_nth [of "n + 1" "(?z[0 := 0], ?z[0 := 0])" 1 "n + 1"]
    unfolding fst_conv snd_conv length_list_update by (metis length_replicate order_refl)
  have ff: "fill_free (?z[0 := 0], ?z[0 := 0]) 1 (n + 1) (n + 1) = Some (n', p')"
    "length n' = n + 1" "length p' = n + 1"
    "\<forall>k < n + 1. n' ! k = (if 1 \<le> k \<and> k < n + 1 then (k + 1) mod (n + 1) else 0)"
    "\<forall>k < n + 1. p' ! k = (if 1 \<le> k \<and> k < n + 1 then k else 0)"
  proof -
    show "fill_free (?z[0 := 0], ?z[0 := 0]) 1 (n + 1) (n + 1) = Some (n', p')"
      by (rule ff0(1))
    show "length n' = n + 1" "length p' = n + 1"
      using ff0(2,3) by simp_all
    have z: "?z[0 := 0] ! k = 0" if "k < n + 1" for k
      using that by (cases k) simp_all
    show "\<forall>k < n + 1. n' ! k = (if 1 \<le> k \<and> k < n + 1 then (k + 1) mod (n + 1) else 0)"
      using ff0(4) z by (metis length_replicate)
    show "\<forall>k < n + 1. p' ! k = (if 1 \<le> k \<and> k < n + 1 then k else 0)"
      using ff0(5) z by (metis length_replicate)
  qed
  have lst: "lst = \<lparr> data = replicate (n + 1) 0, nexts = n', prevs = p', elem_size = es,
                      size_l = 1, capacity = n + 1, first_free = 1, head = 0, tail = 0,
                      normalized = True \<rparr>"
    using assms(1) es w ff(1) by (simp add: list_create_func_def Let_def)
  have n0: "n' ! 0 = 0" and p0: "p' ! 0 = 0"
    using ff(4,5) by simp_all
  have nk: "\<forall>k. 0 < k \<and> k < length n' \<longrightarrow> n' ! k = (k + 1) mod length n'"
    using ff(2,4) by simp
  have fr: "walk n' (n + 1) 1 = [1..<n + 1]"
    using walk_fresh_chain [OF nk, of 1 "n + 1"] ff(2) by simp
  have nb: "list_all (\<lambda>x. x < n + 1) n'"
    using ff(2,4) by (auto simp: list_all_length)
  have pb: "list_all (\<lambda>x. x < n + 1) p'"
    using ff(3,5) by (auto simp: list_all_length)
  have marks: "list_all (\<lambda>f. p' ! f = f) [1..<n + 1]"
    using ff(5) by (auto simp: list_all_iff)
  have act: "actives lst = []"
    by (simp add: actives_def lst)
  have fre: "frees lst = [1..<n + 1]"
    using fr by (simp add: frees_def lst)
  have fit: "fits_size_t (8 * (n + 1))"
    using assms(2) by (simp add: fits_size_t_iff)
  show "list_inv lst"
    unfolding list_inv_def act fre
    using ff(2,3) n0 p0 nb pb marks es fit by (auto simp: lst)
  show "actives lst = []" by (rule act)
  show "capacity lst = n + 1" "elem_size lst = es" by (simp_all add: lst)
qed

subsection \<open>Every completed operation keeps the invariant\<close>

lemma erase_keeps_inv:
  assumes "list_inv lst" and "list_erase lst it = Some (e, lst', it')"
  shows "list_inv lst'"
proof (cases "on_element lst it")
  case True
  then show ?thesis
    using erase_preserves_inv(3) [OF assms(1) True assms(2)] by simp
next
  case False
  then have "lst' = lst"
    using assms
    by (auto simp: list_erase_def check_iterator_inv on_element_def split: if_splits)
  then show ?thesis using assms(1) by simp
qed

lemma insert_after_keeps_inv:
  assumes "list_inv lst" and "list_insert_after lst it v a = Some (e, lst')"
  shows "list_inv lst'"
proof (cases "e = LIST_NO_ERR")
  case True
  then show ?thesis
    using insert_after_preserves_inv(1) [OF assms(1)] assms(2) by simp
next
  case False
  then have "lst' = lst"
    using assms(2) by (auto simp: insert_after_eq [OF assms(1)] split: if_splits)
  then show ?thesis using assms(1) by simp
qed

lemma operations_keep_inv:
  assumes "list_inv lst"
  shows "list_insert_after lst it v a = Some (e, lst') \<Longrightarrow> list_inv lst'"
    and "list_insert_before lst it v a = Some (e, lst') \<Longrightarrow> list_inv lst'"
    and "list_insert_to_head lst v a = Some (e, lst') \<Longrightarrow> list_inv lst'"
    and "list_insert_to_tail lst v a = Some (e, lst') \<Longrightarrow> list_inv lst'"
    and "list_erase lst it = Some (e, lst', it') \<Longrightarrow> list_inv lst'"
    and "list_erase_by_value lst v = Some (e, lst') \<Longrightarrow> list_inv lst'"
    and "list_erase_by_index lst k = Some (e, lst') \<Longrightarrow> list_inv lst'"
proof -
  show "list_insert_after lst it v a = Some (e, lst') \<Longrightarrow> list_inv lst'"
    by (rule insert_after_keeps_inv [OF assms])
  show "list_insert_before lst it v a = Some (e, lst') \<Longrightarrow> list_inv lst'"
    by (auto simp: list_insert_before_def split: Option.bind_splits
             dest: insert_after_keeps_inv [OF assms])
  show "list_insert_to_head lst v a = Some (e, lst') \<Longrightarrow> list_inv lst'"
    by (auto simp: list_insert_to_head_def list_insert_before_def split: Option.bind_splits
             dest: insert_after_keeps_inv [OF assms])
  show "list_insert_to_tail lst v a = Some (e, lst') \<Longrightarrow> list_inv lst'"
    by (auto simp: list_insert_to_tail_def dest: insert_after_keeps_inv [OF assms])
  show "list_erase lst it = Some (e, lst', it') \<Longrightarrow> list_inv lst'"
    by (rule erase_keeps_inv [OF assms])
  show "list_erase_by_value lst v = Some (e, lst') \<Longrightarrow> list_inv lst'"
    by (auto simp: list_erase_by_value_def split: Option.bind_splits
             dest: erase_keeps_inv [OF assms])
  show "list_erase_by_index lst k = Some (e, lst') \<Longrightarrow> list_inv lst'"
    by (auto simp: list_erase_by_index_def split: Option.bind_splits
             dest: erase_keeps_inv [OF assms])
qed

lemma reachable_inv: "reachable lst \<Longrightarrow> list_inv lst"
proof (induction rule: reachable.induct)
  case (created n es lst)
  then show ?case by (rule created_list_valid(1))
qed (auto dest: operations_keep_inv)


section \<open>Element access\<close>

text \<open>
  C3 (amended).  On a valid list \<^verbatim>\<open>list_get\<close> returns the address of slot \<open>it\<close> when \<open>it\<close>
  is an active slot other than the sentinel, and the null pointer when \<open>it\<close> is out of
  range or names a free slot.  For the sentinel, \<open>it = 0\<close>, it does not return the null
  pointer: \<^verbatim>\<open>list_check_iterator\<close> accepts 0, and the address of slot 0 comes back.
\<close>

theorem list_get_result:
  assumes "list_inv lst"
  shows "list_get lst it =
           Some (if it = 0 then Slot 0
                 else if it < capacity lst \<and> prevs lst ! it \<noteq> it then Slot it
                 else NULL)"
  using assms by (simp add: list_get_def check_iterator_inv)

theorem list_get_result_witness:
  "list_inv ex_one \<and> list_get ex_one 1 = Some (Slot 1) \<and> list_get ex_one 2 = Some NULL
     \<and> list_get ex_one 5 = Some NULL"
proof -
  have "list_get ex_one 1 = Some (Slot 1)" "list_get ex_one 2 = Some NULL"
       "list_get ex_one 5 = Some NULL"
    using list_get_result [OF ex_inv(2), of 1] list_get_result [OF ex_inv(2), of 2]
          list_get_result [OF ex_inv(2), of 5]
    by (simp_all add: ex_one_def)
  then show ?thesis
    using ex_inv(2) by simp
qed

text \<open>The claim as stated fails for the sentinel of the one-element list.\<close>

theorem list_get_sentinel_not_null: "list_get ex_one 0 = Some (Slot 0)"
  by code_simp

section \<open>The null handle\<close>

text \<open>
  C10.  \<^verbatim>\<open>list_verify\<close> answers \<^verbatim>\<open>LIST_NO_ERR\<close> for the null handle, hence for a handle that
  \<^verbatim>\<open>list_destroy\<close> returned, exactly as it does for a valid list.
\<close>

theorem verify_null_handle:
  "list_verify_func None = Some LIST_NO_ERR
     \<and> list_verify_func (list_destroy h) = Some LIST_NO_ERR
     \<and> list_verify_func (Some ex_one) = Some LIST_NO_ERR"
proof -
  have "list_verify_func (Some ex_one) = Some LIST_NO_ERR"
    by code_simp
  then show ?thesis
    by (simp add: list_verify_func_def list_destroy_def)
qed

section \<open>Insertion into a full list\<close>

text \<open>
  C1 (the code departs from the claim).  In the scenario of the specification,
  \<^verbatim>\<open>list_create(2, ..., int)\<close> followed by three calls of \<^verbatim>\<open>list_insert_to_tail\<close>, the first
  two insertions succeed and the third, which finds the list full, reads outside the
  arrays: \<^verbatim>\<open>memcpy\<close> copies 7 slots out of arrays of 3, and the walk along the free
  chain starts with \<^verbatim>\<open>nexts[size]\<close>, one slot past the end.
\<close>

theorem insert_into_full_list_out_of_bounds:
  "list_create_func 2 4 True = Some (Some ex_empty)
     \<and> list_insert_to_tail ex_empty 11 True = Some (LIST_NO_ERR, ex_one)
     \<and> list_insert_to_tail ex_one 22 True = Some (LIST_NO_ERR, ex_tail)
     \<and> list_verify ex_tail = Some LIST_NO_ERR
     \<and> size_l ex_tail = capacity ex_tail
     \<and> memcpy_slots (replicate 7 0) (nexts ex_tail) 7 = None
     \<and> rd (nexts ex_tail) (size_l ex_tail) = None
     \<and> list_insert_to_tail ex_tail 33 True = None"
  by code_simp

section \<open>Normalisation breaks the order\<close>

text \<open>
  C2 (the code departs from the claim).  After \<^verbatim>\<open>list_create(2, ..., int)\<close>,
  \<^verbatim>\<open>list_insert_to_tail(11)\<close>, \<^verbatim>\<open>list_insert_to_head(22)\<close> the list is valid, not
  normalized, and reads 22, 11.  \<^verbatim>\<open>list_normalize\<close> leaves 11 in slot 1 and 22 in slot
  2, cuts the chain after slot 1 (\<open>next[1] = 0\<close>), and the checker rejects the result.
\<close>

theorem list_normalize_breaks_order:
  "list_verify ex_head = Some LIST_NO_ERR
     \<and> normalized ex_head = False \<and> size_l ex_head = 3
     \<and> contents ex_head = [22, 11]
     \<and> list_normalize ex_head =
           Some \<lparr> data = [11, 11, 22], nexts = [1, 0, 0], prevs = [2, 0, 1], elem_size = 4,
                  size_l = 3, capacity = 3, first_free = 0, head = 1, tail = 2,
                  normalized = True \<rparr>
     \<and> map_option contents (list_normalize ex_head) = Some [11]
     \<and> map_option list_verify (list_normalize ex_head) = Some (Some LIST_BAD_BUSY_FIELDS)"
  by code_simp

section \<open>Clearing\<close>

text \<open>
  C4 (the code departs from the claim).  \<^verbatim>\<open>list_clear\<close> on the one-element list resets
  \<open>size\<close>, the capacity and the sentinel links, but not \<open>head\<close>, \<open>tail\<close> and
  \<open>first_free\<close>: \<open>head\<close> and \<open>tail\<close> stay 1 in a list of capacity 1, and the checker
  answers \<^verbatim>\<open>LIST_BAD_HEAD_ITERATOR\<close>.
\<close>

theorem list_clear_keeps_head_and_tail:
  "list_verify ex_one = Some LIST_NO_ERR
     \<and> list_clear ex_one True =
           Some (LIST_NO_ERR,
                 \<lparr> data = [0], nexts = [0], prevs = [0], elem_size = 4, size_l = 1,
                    capacity = 1, first_free = 2, head = 1, tail = 1, normalized = True \<rparr>)
     \<and> map_option (list_verify \<circ> snd) (list_clear ex_one True)
           = Some (Some LIST_BAD_HEAD_ITERATOR)"
  by code_simp

section \<open>Growing and shrinking\<close>

text \<open>
  C8 (the code departs from the claim).  Growing the one-element list to 5 elements
  reads 6 slots out of arrays of 3.  Shrinking alone already loses an element: the
  valid list that reads 22, 11 in four slots, cut down to three slots, comes back as a
  list that reads 11 and that the checker rejects.
\<close>

theorem grow_then_shrink_loses_contents:
  "list_change_capacity ex_one 5 True = None
     \<and> list_verify ex4_head = Some LIST_NO_ERR
     \<and> contents ex4_head = [22, 11]
     \<and> list_change_capacity ex4_head 2 True =
           Some (LIST_NO_ERR,
                 \<lparr> data = [11, 11, 22], nexts = [1, 0, 0], prevs = [2, 0, 1], elem_size = 4,
                    size_l = 3, capacity = 3, first_free = 3, head = 1, tail = 2,
                    normalized = True \<rparr>)
     \<and> map_option (contents \<circ> snd) (list_change_capacity ex4_head 2 True) = Some [11]"
  by code_simp

section \<open>Iterator validation\<close>

text \<open>
  \<^verbatim>\<open>list_insert_after\<close> and \<^verbatim>\<open>list_erase\<close> check the iterator first: an iterator that is
  out of range or names a free slot gives \<^verbatim>\<open>LIST_BAD_ITERATOR\<close> and leaves the list as
  it was.
\<close>

lemma bad_iterator_rejected:
  assumes "list_inv lst" and "it \<noteq> 0" and "capacity lst \<le> it \<or> prevs lst ! it = it"
  shows "list_insert_after lst it v a = Some (LIST_BAD_ITERATOR, lst)"
    and "list_erase lst it = Some (LIST_BAD_ITERATOR, lst, it)"
  using assms
  by (auto simp: list_insert_after_def list_erase_def check_iterator_inv)

text \<open>
  \<^verbatim>\<open>list_insert_before\<close> reads \<^verbatim>\<open>prevs[it]\<close> before any check: with an iterator beyond
  the capacity it reads outside the array.
\<close>

lemma insert_before_out_of_range:
  "length (prevs lst) \<le> it \<Longrightarrow> list_insert_before lst it v a = None"
  by (simp add: list_insert_before_def)

text \<open>
  C9 (the code departs from the claim).  On the one-element list of capacity 3, iterator
  5: \<^verbatim>\<open>list_insert_after\<close> and \<^verbatim>\<open>list_erase\<close> answer \<^verbatim>\<open>LIST_BAD_ITERATOR\<close>, while
  \<^verbatim>\<open>list_insert_before\<close> reads \<^verbatim>\<open>prevs[5]\<close>.
\<close>

theorem insert_before_reads_before_check:
  "capacity ex_one = 3
     \<and> list_insert_after ex_one 5 7 True = Some (LIST_BAD_ITERATOR, ex_one)
     \<and> list_erase ex_one 5 = Some (LIST_BAD_ITERATOR, ex_one, 5)
     \<and> rd (prevs ex_one) 5 = None
     \<and> list_insert_before ex_one 5 7 True = None"
  by code_simp

section \<open>The normalized flag\<close>

text \<open>
  C6.  On a valid list, a successful insertion after \<open>it\<close> leaves \<open>normalized\<close> as it was
  when \<open>it\<close> is the tail (the sentinel, in an empty list) and clears it otherwise;
  \<^verbatim>\<open>list_insert_before\<close> inserts after \<open>prev[it]\<close>, \<^verbatim>\<open>list_insert_to_tail\<close> after the tail,
  \<^verbatim>\<open>list_insert_to_head\<close> before the head; a successful erasure of an element leaves the
  flag as it was when the element is the tail and clears it otherwise.
\<close>

theorem normalized_flag_tracks_tail:
  assumes "list_inv lst"
  shows "(list_insert_after lst it v a = Some (LIST_NO_ERR, lst')
            \<longrightarrow> normalized lst' = (normalized lst \<and> it = tail lst))
       \<and> (list_insert_before lst it v a = Some (LIST_NO_ERR, lst')
            \<longrightarrow> normalized lst' = (normalized lst \<and> prevs lst ! it = tail lst))
       \<and> (list_insert_to_tail lst v a = Some (LIST_NO_ERR, lst')
            \<longrightarrow> normalized lst' = normalized lst)
       \<and> (list_insert_to_head lst v a = Some (LIST_NO_ERR, lst')
            \<longrightarrow> normalized lst' = (normalized lst \<and> head lst = 0))
       \<and> (it \<noteq> 0 \<and> list_erase lst it = Some (LIST_NO_ERR, lst', it')
            \<longrightarrow> normalized lst' = (normalized lst \<and> it = tail lst))"
proof -
  have after: "normalized l = (normalized lst \<and> i = tail lst)"
    if "list_insert_after lst i v a = Some (LIST_NO_ERR, l)" for i l
  proof -
    have valid: "i = 0 \<or> on_element lst i"
      using that by (auto simp: insert_after_eq [OF assms] split: if_splits)
    have "nexts lst ! i = 0 \<longleftrightarrow> i = tail lst"
      by (rule nexts_zero_iff_tail [OF assms valid])
    then show ?thesis
      using that by (auto simp: insert_after_eq [OF assms] split: if_splits)
  qed
  have before: "normalized l = (normalized lst \<and> prevs lst ! i = tail lst)"
    if "list_insert_before lst i v a = Some (LIST_NO_ERR, l)" for i l
  proof -
    have "list_insert_after lst (prevs lst ! i) v a = Some (LIST_NO_ERR, l)"
      using that by (auto simp: list_insert_before_def rd_def split: if_splits)
    then show ?thesis by (rule after)
  qed
  have erase: "normalized l = (normalized lst \<and> it = tail lst)"
    if "it \<noteq> 0" and "list_erase lst it = Some (LIST_NO_ERR, l, it')" for l
  proof -
    have "on_element lst it"
      using that assms
      by (auto simp: list_erase_def check_iterator_inv on_element_def split: if_splits)
    then show ?thesis
      using that(2) by (auto simp: erase_result [OF assms] split: if_splits)
  qed
  show ?thesis
    using after [of "tail lst" lst'] after [of it lst'] before [of it lst']
      before [of "head lst" lst'] erase [of lst'] head_prev_is_tail_iff [OF assms]
    by (auto simp: list_insert_to_tail_def list_insert_to_head_def)
qed


theorem normalized_flag_tracks_tail_witness:
  "list_inv ex4_one
     \<and> list_insert_after ex4_one 0 22 True = Some (LIST_NO_ERR, ex4_head)
     \<and> normalized ex4_head = (normalized ex4_one \<and> 0 = tail ex4_one)
     \<and> list_insert_to_tail ex4_one 22 True = Some (LIST_NO_ERR, ex4_tail)
     \<and> normalized ex4_tail = normalized ex4_one
     \<and> list_inv ex4_tail
     \<and> list_erase ex4_tail 1 = Some (LIST_NO_ERR, ex4_erased, 2)
     \<and> normalized ex4_erased = (normalized ex4_tail \<and> 1 = tail ex4_tail)"
proof -
  have a: "list_insert_after ex4_one 0 22 True = Some (LIST_NO_ERR, ex4_head)"
    by code_simp
  have "normalized ex4_head = (normalized ex4_one \<and> 0 = tail ex4_one)"
    using normalized_flag_tracks_tail
      [where lst = ex4_one and it = 0 and v = 22 and a = True and lst' = ex4_head,
       OF ex4_inv(2)] a
    by blast
  moreover have "normalized ex4_tail = normalized ex4_one"
    using normalized_flag_tracks_tail
      [where lst = ex4_one and v = 22 and a = True and lst' = ex4_tail, OF ex4_inv(2)]
      ex4_reached(4)
    by blast
  moreover have "normalized ex4_erased = (normalized ex4_tail \<and> 1 = tail ex4_tail)"
    using normalized_flag_tracks_tail
      [where lst = ex4_tail and it = 1 and lst' = ex4_erased and it' = 2, OF ex4_inv(4)]
      ex4_reached(5)
    by simp
  ultimately show ?thesis
    using a ex4_inv ex4_reached by simp
qed

section \<open>Erasure\<close>

text \<open>
  C7.  On a valid list, \<^verbatim>\<open>list_erase\<close> with the sentinel as iterator changes nothing and
  succeeds.  With an iterator on an element it succeeds, takes the slot out of the active
  chain (which keeps its order), puts it in front of the free chain as the new
  \<open>first_free\<close>, decrements \<open>size\<close>, leaves \<open>head\<close> and \<open>tail\<close> on the first and last
  remaining element (0 when none remains), and moves the iterator to the following
  element, or to the preceding one (0 when there is none) when the erased element was
  the last.  Payloads and capacity are untouched and the result is a valid list.
\<close>

theorem list_erase_effect:
  assumes "list_inv lst"
  shows "list_erase lst 0 = Some (LIST_NO_ERR, lst, 0)
       \<and> (on_element lst it \<longrightarrow>
            (\<exists>lst' it' ys zs.
               list_erase lst it = Some (LIST_NO_ERR, lst', it')
               \<and> actives lst = ys @ it # zs \<and> actives lst' = ys @ zs
               \<and> frees lst' = it # frees lst \<and> first_free lst' = it
               \<and> size_l lst' = size_l lst - 1
               \<and> head lst' = hd (ys @ zs @ [0]) \<and> tail lst' = last (0 # ys @ zs)
               \<and> it' = (if zs = [] then last (0 # ys) else hd zs)
               \<and> data lst' = data lst \<and> capacity lst' = capacity lst
               \<and> list_inv lst'))"
proof (intro conjI impI)
  show "list_erase lst 0 = Some (LIST_NO_ERR, lst, 0)"
    by (simp add: list_erase_def list_check_iterator_def)
next
  assume el: "on_element lst it"
  obtain lst' it' where res: "list_erase lst it = Some (LIST_NO_ERR, lst', it')"
    using erase_result [OF assms el] by blast
  have fields: "first_free lst' = it" "size_l lst' = size_l lst - 1"
    "data lst' = data lst" "capacity lst' = capacity lst"
    using res unfolding erase_result [OF assms el] by auto
  note pres = erase_preserves_inv [OF assms el res]
  obtain ys zs where split: "actives lst = ys @ it # zs" "actives lst' = ys @ zs"
    "it' = (if zs = [] then last (0 # ys) else hd zs)"
    using pres(1) by blast
  have c: "chain (nexts lst') (head lst') (ys @ zs) 0"
    using inv_actives_chain [OF pres(3)] split(2) by simp
  have "head lst' = hd ((ys @ zs) @ [0])"
    using c by (cases "ys @ zs") simp_all
  then have h: "head lst' = hd (ys @ zs @ [0])"
    by simp
  have t: "tail lst' = last (0 # ys @ zs)"
    using inv_tail [OF pres(3)] split(2) by simp
  show "\<exists>lst' it' ys zs.
          list_erase lst it = Some (LIST_NO_ERR, lst', it')
          \<and> actives lst = ys @ it # zs \<and> actives lst' = ys @ zs
          \<and> frees lst' = it # frees lst \<and> first_free lst' = it
          \<and> size_l lst' = size_l lst - 1
          \<and> head lst' = hd (ys @ zs @ [0]) \<and> tail lst' = last (0 # ys @ zs)
          \<and> it' = (if zs = [] then last (0 # ys) else hd zs)
          \<and> data lst' = data lst \<and> capacity lst' = capacity lst
          \<and> list_inv lst'"
    using res split pres(2,3) fields h t by blast
qed

theorem list_erase_effect_witness:
  "list_inv ex4_tail \<and> on_element ex4_tail 1
     \<and> list_erase ex4_tail 0 = Some (LIST_NO_ERR, ex4_tail, 0)
     \<and> list_erase ex4_tail 1 = Some (LIST_NO_ERR, ex4_erased, 2)
     \<and> actives ex4_tail = [1, 2] \<and> actives ex4_erased = [2]
     \<and> frees ex4_erased = 1 # frees ex4_tail
     \<and> size_l ex4_erased = size_l ex4_tail - 1
     \<and> head ex4_erased = 2 \<and> tail ex4_erased = 2
     \<and> list_inv ex4_erased"
proof -
  have el: "on_element ex4_tail 1"
    by code_simp
  have a: "actives ex4_tail = [1, 2]"
    by code_simp
  from list_erase_effect [OF ex4_inv(4), of 1] el
  obtain lst' it' ys zs where
    w: "list_erase ex4_tail 0 = Some (LIST_NO_ERR, ex4_tail, 0)"
       "list_erase ex4_tail 1 = Some (LIST_NO_ERR, lst', it')"
       "actives ex4_tail = ys @ 1 # zs" "actives lst' = ys @ zs"
       "frees lst' = 1 # frees ex4_tail" "size_l lst' = size_l ex4_tail - 1"
       "head lst' = hd (ys @ zs @ [0])" "tail lst' = last (0 # ys @ zs)"
       "list_inv lst'"
    by blast
  have l: "lst' = ex4_erased" "it' = 2"
    using w(2) ex4_reached(5) by simp_all
  have "ys = [] \<and> zs = [2]"
    using w(3) a by (auto simp: Cons_eq_append_conv)
  then show ?thesis
    using w l el a ex4_inv(4) by simp
qed

section \<open>Allocation failure in \<^verbatim>\<open>list_change_capacity\<close>\<close>

text \<open>
  C5 (amended).  On a valid list, when the requested capacity is not below \<open>size\<close> and
  the allocation fails, \<^verbatim>\<open>list_change_capacity\<close> returns \<^verbatim>\<open>LIST_ALLOC_ERR\<close>.  The list is
  exactly as before when the request does not shrink the capacity or the list is already
  normalized.  On the shrinking path \<^verbatim>\<open>list_normalize\<close> has already run: the list that is
  left is its result, flagged normalized, with the same three arrays (same lengths), the
  same capacity, size and element size.
\<close>

theorem change_capacity_alloc_failure:
  assumes "list_inv lst" and "size_l lst \<le> wrap (n + 1)"
  shows "\<exists>lst'. list_change_capacity lst n False = Some (LIST_ALLOC_ERR, lst')
           \<and> (capacity lst \<le> wrap (n + 1) \<or> normalized lst \<longrightarrow> lst' = lst)
           \<and> (wrap (n + 1) < capacity lst \<longrightarrow> list_normalize lst = Some lst' \<and> normalized lst')
           \<and> capacity lst' = capacity lst \<and> size_l lst' = size_l lst
           \<and> elem_size lst' = elem_size lst
           \<and> length (data lst') = capacity lst \<and> length (nexts lst') = capacity lst
           \<and> length (prevs lst') = capacity lst"
proof (cases "wrap (n + 1) < capacity lst")
  case True
  obtain l where l: "list_normalize lst = Some l" "capacity l = capacity lst"
    "size_l l = size_l lst" "elem_size l = elem_size lst" "normalized l"
    "length (data l) = capacity lst" "length (nexts l) = capacity lst"
    "length (prevs l) = capacity lst" "normalized lst \<longrightarrow> l = lst"
    using list_normalize_total [OF assms(1)] by blast
  then show ?thesis
    using True assms(2) by (auto simp: list_change_capacity_def Let_def)
next
  case False
  then show ?thesis
    using assms(2) inv_len_data [OF assms(1)] inv_len_nexts [OF assms(1)]
      inv_len_prevs [OF assms(1)]
    by (auto simp: list_change_capacity_def Let_def)
qed

theorem change_capacity_alloc_failure_witness:
  "list_inv ex4_erased \<and> size_l ex4_erased \<le> wrap (1 + 1) \<and> wrap (1 + 1) < capacity ex4_erased
     \<and> list_change_capacity ex4_erased 1 False = Some (LIST_ALLOC_ERR, ex4_compacted)
     \<and> list_normalize ex4_erased = Some ex4_compacted
     \<and> list_inv ex4_tail \<and> size_l ex4_tail \<le> wrap (2 + 1) \<and> normalized ex4_tail
     \<and> list_change_capacity ex4_tail 2 False = Some (LIST_ALLOC_ERR, ex4_tail)"
proof -
  have h: "size_l ex4_erased \<le> wrap (1 + 1)" "wrap (1 + 1) < capacity ex4_erased"
    "size_l ex4_tail \<le> wrap (2 + 1)" "normalized ex4_tail"
    by code_simp+
  have n: "list_normalize ex4_erased = Some ex4_compacted"
    by code_simp
  have "list_change_capacity ex4_erased 1 False = Some (LIST_ALLOC_ERR, ex4_compacted)"
    using change_capacity_alloc_failure [OF ex4_inv(5) h(1)] h(2) n by auto
  moreover have "list_change_capacity ex4_tail 2 False = Some (LIST_ALLOC_ERR, ex4_tail)"
    using change_capacity_alloc_failure [OF ex4_inv(4) h(3)] h(4) by auto
  ultimately show ?thesis
    using h n ex4_inv by simp
qed

text \<open>
  The claim as stated fails on the shrinking path: the element 22 of \<open>ex4_erased\<close> sits in
  slot 2; after the failed call it sits in slot 1 and the flag has changed.
\<close>

theorem alloc_failure_after_normalize:
  "list_inv ex4_erased
     \<and> list_change_capacity ex4_erased 1 False = Some (LIST_ALLOC_ERR, ex4_compacted)
     \<and> data ex4_erased = [0, 11, 22, 0] \<and> data ex4_compacted = [11, 22, 11, 0]
     \<and> head ex4_erased = 2 \<and> head ex4_compacted = 1
     \<and> normalized ex4_erased = False \<and> normalized ex4_compacted = True"
  by code_simp

section \<open>Further properties\<close>

text \<open>
  X1.  A list that \<^verbatim>\<open>list_create\<close> returns (for a capacity whose link arrays fit in the
  address space) is valid, passes \<^verbatim>\<open>list_verify\<close>, is empty, and reports the requested
  capacity and element size.
\<close>

theorem created_list_is_valid:
  assumes "list_create_func n es True = Some (Some lst)" and "8 * (n + 1) < 2 ^ 64"
  shows "list_inv lst \<and> list_verify lst = Some LIST_NO_ERR \<and> contents lst = []
           \<and> list_size lst = 0 \<and> list_capacity lst = n \<and> elem_size lst = es"
proof -
  note c = created_list_valid [OF assms]
  have "size_l lst = 1"
    using inv_len_actives [OF c(1)] inv_size_pos [OF c(1)] c(2) by simp
  then show ?thesis
    using c inv_verify [OF c(1)] by (simp add: contents_def list_size_def list_capacity_def)
qed

theorem created_list_is_valid_witness:
  "list_create_func 2 4 True = Some (Some ex_empty) \<and> (8::nat) * (2 + 1) < 2 ^ 64
     \<and> list_inv ex_empty \<and> list_verify ex_empty = Some LIST_NO_ERR \<and> contents ex_empty = []
     \<and> list_size ex_empty = 0 \<and> list_capacity ex_empty = 2"
proof -
  have b: "(8::nat) * (2 + 1) < 2 ^ 64" by simp
  show ?thesis
    using created_list_is_valid [OF ex_empty_created b] ex_empty_created b by simp
qed

text \<open>
  X2.  \<^verbatim>\<open>list_verify\<close> returns \<^verbatim>\<open>LIST_NO_ERR\<close> on every list that satisfies the structural
  invariant, without reading outside the arrays.
\<close>

theorem valid_list_passes_verify:
  assumes "list_inv lst"
  shows "list_verify lst = Some LIST_NO_ERR"
  by (rule inv_verify [OF assms])

theorem valid_list_passes_verify_witness:
  "list_inv ex4_erased \<and> list_verify ex4_erased = Some LIST_NO_ERR"
  using valid_list_passes_verify [OF ex4_inv(5)] ex4_inv(5) by simp

text \<open>
  X3.  On a valid list, every insertion or erasure that runs to completion, whatever error
  code it returns, leaves a valid list that \<^verbatim>\<open>list_verify\<close> accepts.  (An insertion that
  has to grow the list does not run to completion, see X6.)
\<close>

theorem completed_operation_keeps_valid:
  assumes "list_inv lst"
  shows "(list_insert_after lst it v a = Some (e, lst')
            \<longrightarrow> list_inv lst' \<and> list_verify lst' = Some LIST_NO_ERR)
       \<and> (list_insert_before lst it v a = Some (e, lst')
            \<longrightarrow> list_inv lst' \<and> list_verify lst' = Some LIST_NO_ERR)
       \<and> (list_insert_to_head lst v a = Some (e, lst')
            \<longrightarrow> list_inv lst' \<and> list_verify lst' = Some LIST_NO_ERR)
       \<and> (list_insert_to_tail lst v a = Some (e, lst')
            \<longrightarrow> list_inv lst' \<and> list_verify lst' = Some LIST_NO_ERR)
       \<and> (list_erase lst it = Some (e, lst', it')
            \<longrightarrow> list_inv lst' \<and> list_verify lst' = Some LIST_NO_ERR)
       \<and> (list_erase_by_value lst v = Some (e, lst')
            \<longrightarrow> list_inv lst' \<and> list_verify lst' = Some LIST_NO_ERR)
       \<and> (list_erase_by_index lst k = Some (e, lst')
            \<longrightarrow> list_inv lst' \<and> list_verify lst' = Some LIST_NO_ERR)"
  by (auto dest!: operations_keep_inv [OF assms] simp: inv_verify)

theorem completed_operation_keeps_valid_witness:
  "list_inv ex4_one
     \<and> list_insert_to_head ex4_one 22 True = Some (LIST_NO_ERR, ex4_head)
     \<and> list_inv ex4_head \<and> list_verify ex4_head = Some LIST_NO_ERR
     \<and> list_insert_to_tail ex4_one 22 True = Some (LIST_NO_ERR, ex4_tail)
     \<and> list_verify ex4_tail = Some LIST_NO_ERR
     \<and> list_erase ex4_tail 1 = Some (LIST_NO_ERR, ex4_erased, 2)
     \<and> list_verify ex4_erased = Some LIST_NO_ERR"
proof -
  have "list_inv ex4_head \<and> list_verify ex4_head = Some LIST_NO_ERR"
    using completed_operation_keeps_valid
      [where lst = ex4_one and v = 22 and a = True and e = LIST_NO_ERR and lst' = ex4_head,
       OF ex4_inv(2)] ex4_reached(3)
    by blast
  moreover have "list_inv ex4_tail \<and> list_verify ex4_tail = Some LIST_NO_ERR"
    using completed_operation_keeps_valid
      [where lst = ex4_one and v = 22 and a = True and e = LIST_NO_ERR and lst' = ex4_tail,
       OF ex4_inv(2)] ex4_reached(4)
    by blast
  moreover have "list_inv ex4_erased \<and> list_verify ex4_erased = Some LIST_NO_ERR"
    using completed_operation_keeps_valid
      [where lst = ex4_tail and it = 1 and e = LIST_NO_ERR and lst' = ex4_erased and it' = 2,
       OF ex4_inv(4)] ex4_reached(5)
    by blast
  ultimately show ?thesis
    using ex4_inv(2) ex4_reached by simp
qed

text \<open>
  X4.  Every list reached from \<^verbatim>\<open>list_create\<close> through insertions and erasures that ran
  to completion is valid and passes \<^verbatim>\<open>list_verify\<close>.
\<close>

theorem reachable_list_is_valid:
  assumes "reachable lst"
  shows "list_inv lst \<and> list_verify lst = Some LIST_NO_ERR"
  using reachable_inv [OF assms] inv_verify by blast

theorem reachable_list_is_valid_witness:
  "reachable ex_head \<and> list_inv ex_head \<and> list_verify ex_head = Some LIST_NO_ERR"
proof -
  have "reachable ex_empty"
    by (rule reachable.created [OF ex_empty_created]) simp
  then have "reachable ex_one"
    by (rule reachable.to_tail [OF _ ex_one_reached])
  then have r: "reachable ex_head"
    by (rule reachable.to_head [OF _ ex_head_reached])
  show ?thesis
    using reachable_list_is_valid [OF r] r by simp
qed

text \<open>
  X5.  A successful \<^verbatim>\<open>list_insert_after\<close> on a valid list takes the first slot of the free
  chain, links it directly after \<open>it\<close> (at the front when \<open>it\<close> is the sentinel), and the
  list then reads as before with \<open>v\<close> inserted at that place; \<open>size\<close> grows by one, the
  capacity is unchanged and the list is valid.
\<close>

theorem insert_after_effect:
  assumes "list_inv lst" and "list_insert_after lst it v a = Some (LIST_NO_ERR, lst')"
  shows "\<exists>pre post. actives lst = pre @ post \<and> last (0 # pre) = it
           \<and> actives lst' = pre @ first_free lst # post
           \<and> contents lst = map ((!) (data lst)) pre @ map ((!) (data lst)) post
           \<and> contents lst' = map ((!) (data lst)) pre @ v # map ((!) (data lst)) post
           \<and> frees lst = first_free lst # frees lst'
           \<and> size_l lst' = size_l lst + 1 \<and> capacity lst' = capacity lst
           \<and> list_inv lst'"
proof -
  note p = insert_after_preserves_inv [OF assms]
  obtain pre post where s: "actives lst = pre @ post" "last (0 # pre) = it"
    "actives lst' = pre @ first_free lst # post"
    using p(2) by blast
  have d: "distinct (actives lst @ frees lst)"
    by (rule inv_distinct [OF assms(1)])
  have nin: "first_free lst \<notin> set pre" "first_free lst \<notin> set post"
    using d s(1) p(3) by auto
  have "first_free lst \<in> set (frees lst)"
    using p(3) by simp
  then have "first_free lst < length (data lst)"
    using walk_set [of "first_free lst" "nexts lst" "capacity lst" "first_free lst"]
      inv_len_data [OF assms(1)] inv_len_nexts [OF assms(1)] by (simp add: frees_def)
  then have c': "contents lst' = map ((!) (data lst)) pre @ v # map ((!) (data lst)) post"
    using nin s(3) p(4) by (auto simp: contents_def nth_list_update)
  have c: "contents lst = map ((!) (data lst)) pre @ map ((!) (data lst)) post"
    using s(1) by (simp add: contents_def)
  show ?thesis
    using s c c' p(1,3,5,6) by blast
qed

theorem insert_after_effect_witness:
  "list_inv ex4_one \<and> list_insert_after ex4_one 0 22 True = Some (LIST_NO_ERR, ex4_head)
     \<and> contents ex4_one = [11] \<and> contents ex4_head = [22, 11]
     \<and> actives ex4_one = [1] \<and> actives ex4_head = [2, 1] \<and> first_free ex4_one = 2
     \<and> list_inv ex4_head"
proof -
  have a: "list_insert_after ex4_one 0 22 True = Some (LIST_NO_ERR, ex4_head)"
    by code_simp
  have c: "actives ex4_one = [1]" "data ex4_one = [0, 11, 0, 0]" "first_free ex4_one = 2"
    by code_simp+
  obtain pre post where w: "actives ex4_one = pre @ post" "last (0 # pre) = 0"
    "actives ex4_head = pre @ first_free ex4_one # post"
    "contents ex4_one = map ((!) (data ex4_one)) pre @ map ((!) (data ex4_one)) post"
    "contents ex4_head = map ((!) (data ex4_one)) pre @ 22 # map ((!) (data ex4_one)) post"
    "list_inv ex4_head"
    using insert_after_effect [OF ex4_inv(2) a] by blast
  have "pre = []"
    using w(1,2) c(1) by (cases pre) (auto simp: Cons_eq_append_conv split: if_splits)
  then have "post = [1]"
    using w(1) c(1) by simp
  then show ?thesis
    using \<open>pre = []\<close> w c a ex4_inv(2) by simp
qed

text \<open>
  X6.  On a full valid list an insertion with a valid iterator never succeeds: when the
  allocation fails it returns \<^verbatim>\<open>LIST_ALLOC_ERR\<close> and leaves the list unchanged, and when
  the allocation succeeds \<^verbatim>\<open>list_change_capacity\<close> reads outside the old arrays.
\<close>

theorem insert_into_full_list:
  assumes "list_inv lst" and "size_l lst = capacity lst" and "it = 0 \<or> on_element lst it"
  shows "list_insert_after lst it v True = None
       \<and> list_insert_after lst it v False = Some (LIST_ALLOC_ERR, lst)"
  using assms by (simp add: insert_after_eq [OF assms(1)])

theorem insert_into_full_list_witness:
  "list_inv ex_tail \<and> size_l ex_tail = capacity ex_tail \<and> on_element ex_tail 2
     \<and> list_insert_after ex_tail 2 33 True = None
     \<and> list_insert_after ex_tail 2 33 False = Some (LIST_ALLOC_ERR, ex_tail)"
proof -
  have h: "size_l ex_tail = capacity ex_tail" "on_element ex_tail 2"
    by code_simp+
  show ?thesis
    using insert_into_full_list [OF ex_inv(4) h(1), of 2 33] h ex_inv(4) by simp
qed

end
